theory Spec2Isabelle
  imports
    Main
    "HOL-Library.List_Lexorder"
    "HOL-Library.Product_Lexorder"
    "HOL-Library.Multiset"
    "HOL-Library.Sublist"
    "HOL-Library.Code_Target_Nat"
begin

section \<open>Strings\<close>

text \<open>
  A Python \<open>str\<close> is a sequence of Unicode code points.  A code point is a natural
  number; \<open>ord\<close> is the code point of an ASCII or Latin-1 character and \<open>u\<close> turns a
  string literal into the sequence of its code points.
\<close>

type_synonym cp = nat
type_synonym ustring = "nat list"

definition ord :: "char \<Rightarrow> cp" where
  "ord ch = of_char ch"

definition u :: "string \<Rightarrow> ustring" where
  "u s = map ord s"

text \<open>
  The character tables of the interpreter come from its Unicode database and depend on
  its version; they are a parameter of the model:
  \<^item> \<open>isspace\<close> is \<open>str.isspace\<close>, which is also the class \<open>\s\<close> of a \<open>str\<close> pattern and
    the set of characters that \<open>str.strip()\<close> removes;
  \<^item> \<open>isdecimal\<close> is \<open>str.isdecimal\<close>, the class \<open>\d\<close> of a \<open>str\<close> pattern (line 94 is
    compiled without \<open>re.ASCII\<close>);
  \<^item> \<open>isalnum\<close> is \<open>str.isalnum\<close>; the class \<open>\w\<close> is \<open>isalnum\<close> or the underscore;
  \<^item> \<open>lower\<close> is \<open>str.lower\<close>, a function of the whole string;
  \<^item> \<open>ignorecase p c\<close> says that the character \<open>c\<close> of the text matches the
    lower-case literal \<open>p\<close> of a pattern compiled with \<open>re.IGNORECASE\<close>.
\<close>

record unicode =
  isspace :: "cp \<Rightarrow> bool"
  isdecimal :: "cp \<Rightarrow> bool"
  isalnum :: "cp \<Rightarrow> bool"
  lower :: "ustring \<Rightarrow> ustring"
  ignorecase :: "cp \<Rightarrow> cp \<Rightarrow> bool"

definition isword :: "unicode \<Rightarrow> cp \<Rightarrow> bool" where
  "isword U c \<longleftrightarrow> isalnum U c \<or> c = ord CHR ''_''"

text \<open>
  The tables used in the examples.  They are those of CPython on the code points
  U+0000 to U+00FF and on the Arabic-Indic digits U+0660 to U+0669; the examples contain
  no other character.  (White space is given in full.)
\<close>

definition between :: "nat \<Rightarrow> nat \<Rightarrow> cp \<Rightarrow> bool" where
  "between lo hi c \<longleftrightarrow> lo \<le> c \<and> c \<le> hi"

definition lower_cp :: "cp \<Rightarrow> cp" where
  "lower_cp c =
     (if between 0x41 0x5A c \<or> between 0xC0 0xD6 c \<or> between 0xD8 0xDE c
      then c + 32 else c)"

definition tables :: unicode where
  "tables =
     \<lparr>isspace = (\<lambda>c. between 0x09 0x0D c \<or> between 0x1C 0x20 c \<or> c = 0x85 \<or> c = 0xA0
          \<or> c = 0x1680 \<or> between 0x2000 0x200A c \<or> c = 0x2028 \<or> c = 0x2029
          \<or> c = 0x202F \<or> c = 0x205F \<or> c = 0x3000),
      isdecimal = (\<lambda>c. between 0x30 0x39 c \<or> between 0x660 0x669 c),
      isalnum = (\<lambda>c. between 0x30 0x39 c \<or> between 0x41 0x5A c \<or> between 0x61 0x7A c
          \<or> c = 0xAA \<or> between 0xB2 0xB3 c \<or> c = 0xB5 \<or> between 0xB9 0xBA c
          \<or> between 0xBC 0xBE c \<or> between 0xC0 0xD6 c \<or> between 0xD8 0xF6 c
          \<or> between 0xF8 0xFF c \<or> between 0x660 0x669 c),
      lower = map lower_cp,
      ignorecase = (\<lambda>p c. lower_cp c = p)\<rparr>"

text \<open>\<open>s.startswith(p)\<close> and \<open>s.endswith(p)\<close>.\<close>

definition startswith :: "ustring \<Rightarrow> ustring \<Rightarrow> bool" where
  "startswith s p \<longleftrightarrow> take (length p) s = p"

definition endswith :: "ustring \<Rightarrow> ustring \<Rightarrow> bool" where
  "endswith s p \<longleftrightarrow> length p \<le> length s \<and> drop (length s - length p) s = p"

text \<open>\<open>s.lstrip(chars)\<close>, \<open>s.rstrip(chars)\<close>, \<open>s.strip(chars)\<close> and the argument-free
  \<open>s.strip()\<close>, which removes white space.\<close>

definition lstrip_chars :: "(cp \<Rightarrow> bool) \<Rightarrow> ustring \<Rightarrow> ustring" where
  "lstrip_chars P s = dropWhile P s"

definition rstrip_chars :: "(cp \<Rightarrow> bool) \<Rightarrow> ustring \<Rightarrow> ustring" where
  "rstrip_chars P s = rev (dropWhile P (rev s))"

definition strip_chars :: "(cp \<Rightarrow> bool) \<Rightarrow> ustring \<Rightarrow> ustring" where
  "strip_chars P s = rstrip_chars P (lstrip_chars P s)"

definition strip :: "unicode \<Rightarrow> ustring \<Rightarrow> ustring" where
  "strip U s = strip_chars (isspace U) s"

text \<open>\<open>sep.join(parts)\<close>.\<close>

fun join :: "ustring \<Rightarrow> ustring list \<Rightarrow> ustring" where
  "join sep [] = []"
| "join sep [p] = p"
| "join sep (p # q # ps) = p @ sep @ join sep (q # ps)"

text \<open>\<open>s.split(c)\<close> for a single separator character.\<close>

fun split_char :: "cp \<Rightarrow> ustring \<Rightarrow> ustring list" where
  "split_char c [] = [[]]"
| "split_char c (x # xs) =
     (if x = c then [] # split_char c xs
      else (case split_char c xs of p # ps \<Rightarrow> (x # p) # ps | [] \<Rightarrow> [[x]]))"

text \<open>\<open>s.rfind(c)\<close>; \<open>None\<close> stands for the result \<open>-1\<close>.\<close>

fun rfind :: "cp \<Rightarrow> ustring \<Rightarrow> nat option" where
  "rfind c [] = None"
| "rfind c (x # xs) =
     (case rfind c xs of Some i \<Rightarrow> Some (Suc i)
      | None \<Rightarrow> if x = c then Some 0 else None)"

subsection \<open>\<open>pathlib\<close>: name, stem and suffix of a POSIX path\<close>

text \<open>
  \<open>Path(s).name\<close> is the last component of \<open>s\<close> once empty components and \<open>.\<close>
  components are dropped (the empty string if none is left).  With \<open>i = name.rfind('.')\<close>,
  the suffix is \<open>name[i:]\<close> and the stem \<open>name[:i]\<close> when \<open>0 < i < len(name) - 1\<close>;
  otherwise the suffix is empty and the stem is the whole name.
\<close>

definition path_name :: "ustring \<Rightarrow> ustring" where
  "path_name s =
     (case filter (\<lambda>p. p \<noteq> [] \<and> p \<noteq> u ''.'') (split_char (ord CHR ''/'') s) of
        [] \<Rightarrow> [] | p # ps \<Rightarrow> last (p # ps))"

definition path_stem :: "ustring \<Rightarrow> ustring" where
  "path_stem s =
     (let name = path_name s in
      case rfind (ord CHR ''.'') name of
        Some i \<Rightarrow> if 0 < i \<and> Suc i < length name then take i name else name
      | None \<Rightarrow> name)"

definition path_suffix :: "ustring \<Rightarrow> ustring" where
  "path_suffix s =
     (let name = path_name s in
      case rfind (ord CHR ''.'') name of
        Some i \<Rightarrow> if 0 < i \<and> Suc i < length name then drop i name else []
      | None \<Rightarrow> [])"

section \<open>Filename parser\<close>

text \<open>\<open>re.sub(r"[._]", " ", name)\<close>.\<close>

definition sub_dots :: "ustring \<Rightarrow> ustring" where
  "sub_dots name =
     map (\<lambda>c. if c = ord CHR ''.'' \<or> c = ord CHR ''_'' then ord CHR '' '' else c) name"

text \<open>
  The assertion \<open>\b\<close> at position \<open>i\<close> of \<open>s\<close>: exactly one of the characters before and
  at \<open>i\<close> is a word character (a position outside the string counts as a non-word).
\<close>

definition word_boundary :: "unicode \<Rightarrow> ustring \<Rightarrow> nat \<Rightarrow> bool" where
  "word_boundary U s i \<longleftrightarrow>
     (0 < i \<and> isword U (s ! (i - 1))) \<noteq> (i < length s \<and> isword U (s ! i))"

text \<open>The pattern \<open>\b(19|20)\d{2}\b\<close> matched at position \<open>i\<close>.\<close>

definition year_at :: "unicode \<Rightarrow> ustring \<Rightarrow> nat \<Rightarrow> bool" where
  "year_at U s i \<longleftrightarrow>
     word_boundary U s i
     \<and> (take 2 (drop i s) = u ''19'' \<or> take 2 (drop i s) = u ''20'')
     \<and> i + 4 \<le> length s \<and> isdecimal U (s ! (i + 2)) \<and> isdecimal U (s ! (i + 3))
     \<and> word_boundary U s (i + 4)"

text \<open>\<open>re.search\<close> returns the leftmost match; the result is \<open>match.start()\<close>.\<close>

definition search_year :: "unicode \<Rightarrow> ustring \<Rightarrow> nat option" where
  "search_year U s = List.find (year_at U s) [0 ..< Suc (length s)]"

text \<open>The alternatives of the tag pattern, in the order of the source.\<close>

definition tags :: "ustring list" where
  "tags = map u [''1080p'', ''720p'', ''480p'', ''4k'', ''2160p'', ''uhd'', ''bluray'',
     ''blu ray'', ''bdrip'', ''brrip'', ''webrip'', ''web dl'', ''web'', ''hdtv'', ''hdcam'',
     ''cam'', ''hdrip'', ''x264'', ''x265'', ''hevc'', ''avc'', ''aac'', ''dts'', ''ac3'',
     ''h264'', ''h265'', ''dvdrip'', ''dvdscr'', ''extended'', ''remastered'', ''theatrical'',
     ''proper'', ''yify'', ''yts'', ''rarbg'', ''10bit'', ''hdr'', ''dolby'', ''atmos'',
     ''directors cut'', ''unrated'', ''retail'']"

text \<open>A literal \<open>t\<close> of the pattern matched at position \<open>p\<close> under \<open>re.IGNORECASE\<close>,
  character by character.\<close>

definition literal_at :: "unicode \<Rightarrow> ustring \<Rightarrow> nat \<Rightarrow> ustring \<Rightarrow> bool" where
  "literal_at U s p t \<longleftrightarrow>
     p + length t \<le> length s \<and> list_all2 (ignorecase U) t (take (length t) (drop p s))"

text \<open>
  \<open>.*$\<close> from position \<open>p\<close>: the dot does not match a newline, so \<open>.*\<close> reaches at most
  the next newline \<open>q\<close>; \<open>$\<close> holds at the end of the string and just before a newline
  that is the last character.  A shorter \<open>.*\<close> ends before \<open>q\<close>, where \<open>$\<close> cannot hold.
  The result is the end of the match.
\<close>

definition dot_star_eol :: "ustring \<Rightarrow> nat \<Rightarrow> nat option" where
  "dot_star_eol s p =
     (let q = p + length (takeWhile (\<lambda>c. c \<noteq> ord CHR 0x0A) (drop p s)) in
      if q = length s \<or> Suc q = length s then Some q else None)"

text \<open>The group of alternatives followed by \<open>.*$\<close>, tried at \<open>p\<close> in the order of the
  pattern; the result is the end of the match.\<close>

definition tag_rest_at :: "unicode \<Rightarrow> ustring \<Rightarrow> nat \<Rightarrow> nat option" where
  "tag_rest_at U s p =
     (case List.find (\<lambda>t. literal_at U s p t \<and> dot_star_eol s (p + length t) \<noteq> None) tags of
        Some t \<Rightarrow> dot_star_eol s (p + length t)
      | None \<Rightarrow> None)"

text \<open>
  The whole tag pattern tried at start position \<open>i\<close>: \<open>\s+\<close> takes the longest run of
  white space and gives characters back one at a time (at least one is kept) until the
  rest of the pattern matches.
\<close>

definition tag_match_at :: "unicode \<Rightarrow> ustring \<Rightarrow> nat \<Rightarrow> nat option" where
  "tag_match_at U s i =
     (let n = length (takeWhile (isspace U) (drop i s)) in
      case List.find (\<lambda>p. tag_rest_at U s p \<noteq> None) (rev [Suc i ..< Suc (i + n)]) of
        Some p \<Rightarrow> tag_rest_at U s p
      | None \<Rightarrow> None)"

text \<open>
  \<open>re.sub(pattern, "", title)\<close>: the leftmost match is removed.  It ends at the end of
  the string or just before its final newline, so nothing after it can match again.
\<close>

definition strip_tags :: "unicode \<Rightarrow> ustring \<Rightarrow> ustring" where
  "strip_tags U s =
     (case List.find (\<lambda>i. tag_match_at U s i \<noteq> None) [0 ..< length s] of
        Some i \<Rightarrow> take i s @ drop (the (tag_match_at U s i)) s
      | None \<Rightarrow> s)"

definition is_trim_char :: "cp \<Rightarrow> bool" where
  "is_trim_char c \<longleftrightarrow> c \<in> set (u '' -[]()'')"

definition is_bracket :: "cp \<Rightarrow> bool" where
  "is_bracket c \<longleftrightarrow> c \<in> set (u ''[]()'')"

text \<open>The year split of lines 94 to 100: the provisional title and the year.\<close>

definition split_year :: "unicode \<Rightarrow> ustring \<Rightarrow> ustring \<times> ustring option" where
  "split_year U name =
     (case search_year U name of
        Some i \<Rightarrow> (strip U (take i name), Some (take 4 (drop i name)))
      | None \<Rightarrow> (name, None))"

text \<open>Lines 103 to 111: tag removal, trimming and removal of the brackets.\<close>

definition clean_title :: "unicode \<Rightarrow> ustring \<Rightarrow> ustring" where
  "clean_title U title =
     strip U (filter (\<lambda>c. \<not> is_bracket c)
       (strip U (strip_chars is_trim_char (strip_tags U title))))"

definition parse_movie_name :: "unicode \<Rightarrow> ustring \<Rightarrow> ustring \<times> ustring option" where
  "parse_movie_name U filename =
     (let name = sub_dots (path_stem filename);
          (title, year) = split_year U name
      in (clean_title U title, year))"

text \<open>A character that neither \<open>strip()\<close>, nor \<open>strip(" -[]()")\<close>, nor the removal of
  brackets takes away.\<close>

definition solid_char :: "unicode \<Rightarrow> cp \<Rightarrow> bool" where
  "solid_char U c \<longleftrightarrow> \<not> isspace U c \<and> \<not> is_trim_char c"

text \<open>The decimal digits of ASCII.\<close>

definition ascii_digit :: "cp \<Rightarrow> bool" where
  "ascii_digit c \<longleftrightarrow> c \<in> set (u ''0123456789'')"

section \<open>Metadata lookup\<close>

text \<open>
  The search service is outside the program.  A request carries the parameters that
  \<open>tmdb_search\<close> builds; the answer is either a failure of the transport or of the HTTP
  status (a \<open>requests.RequestException\<close>) or the \<open>results\<close> array of the JSON body (the
  empty list if the key is absent).  A result is a JSON object; each of its fields read
  by the program is absent, \<open>null\<close> or a string (the identifier is a number, \<open>None\<close>
  when absent or \<open>null\<close>).
\<close>

record request =
  api_key :: ustring
  query :: ustring
  language :: ustring
  primary_release_year :: "ustring option"

datatype jstr = Absent | Null | Str ustring

record movie =
  m_title :: jstr
  m_release_date :: jstr
  m_overview :: jstr
  m_id :: "int option"
  m_poster_path :: jstr
  m_backdrop_path :: jstr

datatype response = RequestException | Results "movie list"

text \<open>The service answers the \<open>n\<close>-th request of the run (counted from 0); its answers
  may change from one request to the next.\<close>

type_synonym tmdb = "nat \<Rightarrow> request \<Rightarrow> response"

text \<open>The exception that the program can raise and does not catch.\<close>

datatype error = AttributeError

text \<open>The dictionary returned by \<open>tmdb_search\<close>.  Its title is \<open>None\<close> when the title of
  the result is \<open>null\<close>.\<close>

record info =
  info_title :: "ustring option"
  info_year :: ustring
  info_overview :: ustring
  info_tmdb_id :: "int option"
  info_poster_url :: ustring
  info_backdrop_url :: ustring

text \<open>
  The state of the process that matters here: the dictionary \<open>_tmdb_cache\<close> (a key is
  absent, or bound to \<open>None\<close>, or bound to a record) and the requests sent so far, in
  order.
\<close>

record state =
  cache :: "ustring \<Rightarrow> info option option"
  sent :: "request list"

definition empty_state :: state where
  "empty_state = \<lparr>cache = (\<lambda>k. None), sent = []\<rparr>"

definition TMDB_IMAGE_BASE :: ustring where
  "TMDB_IMAGE_BASE = u ''https://image.tmdb.org/t/p/w500''"

text \<open>Truth value of an optional string: \<open>None\<close> and the empty string are false.\<close>

definition truthy :: "ustring option \<Rightarrow> bool" where
  "truthy y \<longleftrightarrow> (case y of None \<Rightarrow> False | Some s \<Rightarrow> s \<noteq> [])"

text \<open>\<open>m.get(key) or ""\<close>: the string of the field, empty when the field is absent or
  \<open>null\<close>.\<close>

definition or_empty :: "jstr \<Rightarrow> ustring" where
  "or_empty v = (case v of Str s \<Rightarrow> s | Null \<Rightarrow> [] | Absent \<Rightarrow> [])"

text \<open>\<open>f"{title}|||{year}"\<close>: an absent year is formatted as \<open>None\<close>.\<close>

definition cache_key :: "ustring \<Rightarrow> ustring option \<Rightarrow> ustring" where
  "cache_key title year =
     title @ u ''|||'' @ (case year of None \<Rightarrow> u ''None'' | Some y \<Rightarrow> y)"

definition search_params :: "ustring \<Rightarrow> ustring \<Rightarrow> ustring option \<Rightarrow> request" where
  "search_params key title year =
     \<lparr>api_key = key, query = title, language = u ''en-US'',
      primary_release_year = (if truthy year then year else None)\<rparr>"

text \<open>
  The loop \<open>for attempt in range(3)\<close>: each attempt sends the request; a successful one
  leaves the loop with the results, and when all attempts have failed the \<open>else\<close>
  branch of the loop is taken (the result \<open>None\<close>).
\<close>

fun attempts :: "tmdb \<Rightarrow> request \<Rightarrow> nat \<Rightarrow> state \<Rightarrow> movie list option \<times> state" where
  "attempts api params 0 st = (None, st)"
| "attempts api params (Suc n) st =
     (let st' = st\<lparr>sent := sent st @ [params]\<rparr> in
      case api (length (sent st)) params of
        Results results \<Rightarrow> (Some results, st')
      | RequestException \<Rightarrow> attempts api params n st')"

text \<open>
  The record built from the first result (lines 151 to 159).  \<open>m.get("title", title)\<close>
  is the input title only when the key is absent; \<open>m.get("overview", "")\<close> is \<open>None\<close>
  when the overview is \<open>null\<close>, and calling \<open>replace\<close> on it raises \<open>AttributeError\<close>.
\<close>

definition make_info :: "movie \<Rightarrow> ustring \<Rightarrow> ustring option \<Rightarrow> error + info" where
  "make_info m title year =
     (case m_overview m of
        Null \<Rightarrow> Inl AttributeError
      | overview \<Rightarrow>
          Inr \<lparr>info_title =
                 (case m_title m of Absent \<Rightarrow> Some title | Null \<Rightarrow> None | Str t \<Rightarrow> Some t),
               info_year =
                 (let d = take 4 (or_empty (m_release_date m))
                  in if d \<noteq> [] then d else if truthy year then the year else []),
               info_overview =
                 map (\<lambda>c. if c = ord CHR 0x22 then ord CHR 0x27 else c) (or_empty overview),
               info_tmdb_id = m_id m,
               info_poster_url =
                 (if or_empty (m_poster_path m) \<noteq> []
                  then TMDB_IMAGE_BASE @ or_empty (m_poster_path m) else []),
               info_backdrop_url =
                 (if or_empty (m_backdrop_path m) \<noteq> []
                  then TMDB_IMAGE_BASE @ or_empty (m_backdrop_path m) else [])\<rparr>)"

text \<open>
  \<open>tmdb_search\<close>.  The result is the value returned (\<open>Inr\<close>) or the exception raised
  (\<open>Inl\<close>), together with the state in which the call ends.  The exception is raised
  in line 155, after the requests and before the cache is written.
\<close>

function tmdb_search ::
  "tmdb \<Rightarrow> ustring \<Rightarrow> state \<Rightarrow> ustring \<Rightarrow> ustring option \<Rightarrow> (error + info option) \<times> state"
where
  "tmdb_search api key st title year =
     (case cache st (cache_key title year) of
        Some cached \<Rightarrow> (Inr cached, st)
      | None \<Rightarrow>
          (case attempts api (search_params key title year) 3 st of
             (None, st1) \<Rightarrow>
               (Inr None, st1\<lparr>cache := (cache st1)(cache_key title year \<mapsto> None)\<rparr>)
           | (Some results, st1) \<Rightarrow>
               if results = [] \<and> truthy year then tmdb_search api key st1 title None
               else if results = [] then
                 (Inr None, st1\<lparr>cache := (cache st1)(cache_key title year \<mapsto> None)\<rparr>)
               else
                 (case make_info (hd results) title year of
                    Inl e \<Rightarrow> (Inl e, st1)
                  | Inr i \<Rightarrow>
                      (Inr (Some i),
                       st1\<lparr>cache := (cache st1)(cache_key title year \<mapsto> Some i)\<rparr>))))"
  by pat_completeness auto
termination
  by (relation "measure (\<lambda>(api, key, st, title, year). if truthy year then 1 else 0)")
    (auto simp: truthy_def)

declare tmdb_search.simps [simp del]

text \<open>
  The one path of \<open>tmdb_search\<close> that returns without storing anything under the key
  of the call: the key is not cached, a year was given and the search with the year
  filter succeeded with no result, so that the answer is that of the recursive call.
\<close>

definition fallback_taken :: "tmdb \<Rightarrow> ustring \<Rightarrow> state \<Rightarrow> ustring \<Rightarrow> ustring option \<Rightarrow> bool" where
  "fallback_taken api key st title year \<longleftrightarrow>
     cache st (cache_key title year) = None \<and> truthy year
     \<and> fst (attempts api (search_params key title year) 3 st) = Some []"

text \<open>Services used as examples: one that finds nothing, one that is unreachable, one
  that knows a single film but finds nothing when a release year is given, one whose
  result has a synopsis of two lines, and one whose result has a \<open>null\<close> synopsis.\<close>

definition service_empty :: tmdb where "service_empty n rq = Results []"
definition service_down :: tmdb where "service_down n rq = RequestException"
definition matrix_movie :: movie where
  "matrix_movie = \<lparr>m_title = Str (u ''The Matrix''), m_release_date = Str (u ''1999-03-30''),
     m_overview = Str (u ''A hacker learns the truth.''), m_id = Some 603,
     m_poster_path = Str (u ''/p.jpg''), m_backdrop_path = Null\<rparr>"
definition service_matrix :: tmdb where
  "service_matrix n rq = (if primary_release_year rq = None then Results [matrix_movie] else Results [])"
definition service_two_lines :: tmdb where
  "service_two_lines n rq =
     Results [matrix_movie\<lparr>m_overview := Str (u ''A hacker.'' @ [ord CHR 0x0A] @ u ''He learns the truth.'')\<rparr>]"
definition service_null :: tmdb where
  "service_null n rq = Results [matrix_movie\<lparr>m_overview := Null\<rparr>]"

definition matrix_info :: info where
  "matrix_info =
     \<lparr>info_title = Some (u ''The Matrix''), info_year = u ''1999'',
      info_overview = u ''A hacker learns the truth.'', info_tmdb_id = Some 603,
      info_poster_url = u ''https://image.tmdb.org/t/p/w500/p.jpg'', info_backdrop_url = []\<rparr>"

section \<open>Playlist builder\<close>

text \<open>A directory entry, the dictionary with the keys \<open>url\<close>, \<open>filename\<close> and
  \<open>category\<close> built by \<open>crawl\<close>.\<close>

record entry =
  e_url :: ustring
  e_filename :: ustring
  e_category :: ustring

text \<open>The key of \<open>sorted\<close> in line 170; tuples and strings compare lexicographically,
  characters by code point.\<close>

definition sort_key_of :: "unicode \<Rightarrow> entry \<Rightarrow> ustring \<times> ustring" where
  "sort_key_of U f = (lower U (e_category f), lower U (e_filename f))"

text \<open>\<open>sorted\<close> is stable: entries with equal keys keep their order.\<close>

definition files_sorted :: "unicode \<Rightarrow> entry list \<Rightarrow> entry list" where
  "files_sorted U files = sort_key (sort_key_of U) files"

text \<open>The formatted line of lines 198 to 205.\<close>

definition extinf :: "ustring \<Rightarrow> ustring \<Rightarrow> ustring \<Rightarrow> ustring \<Rightarrow> ustring" where
  "extinf display_title logo group_title overview =
     u ''#EXTINF:-1 ''
     @ u ''tvg-name='' @ [ord CHR 0x22] @ display_title @ [ord CHR 0x22] @ u '' ''
     @ u ''tvg-logo='' @ [ord CHR 0x22] @ logo @ [ord CHR 0x22] @ u '' ''
     @ u ''group-title='' @ [ord CHR 0x22] @ group_title @ [ord CHR 0x22] @ u '' ''
     @ u ''tvg-plot='' @ [ord CHR 0x22] @ overview @ [ord CHR 0x22] @ u '',''
     @ display_title"

text \<open>A title as an f-string prints it: the object \<open>None\<close> is printed as \<open>None\<close>.\<close>

definition fmt :: "ustring option \<Rightarrow> ustring" where
  "fmt t = (case t of Some s \<Rightarrow> s | None \<Rightarrow> u ''None'')"

text \<open>
  The variables that the loop of \<open>build_m3u\<close> changes: the list \<open>lines\<close>, the two
  counters, and the state of the metadata lookup.
\<close>

record build_state =
  lines :: "ustring list"
  matched :: nat
  unmatched :: nat
  lookup :: state

text \<open>One iteration of the loop (lines 175 to 208).  An exception raised by
  \<open>tmdb_search\<close> is not caught and ends \<open>build_m3u\<close>.\<close>

definition build_step ::
  "unicode \<Rightarrow> tmdb \<Rightarrow> ustring \<Rightarrow> build_state \<Rightarrow> entry \<Rightarrow> error + build_state"
where
  "build_step U api key b entry =
     (let filename = e_filename entry;
          url = e_url entry;
          category = e_category entry;
          (title, year) = parse_movie_name U filename
      in case tmdb_search api key (lookup b) title year of
           (Inl e, st) \<Rightarrow> Inl e
         | (Inr (Some i), st) \<Rightarrow>
             (let display_title =
                    (if info_year i \<noteq> []
                     then fmt (info_title i) @ u '' ('' @ info_year i @ u '')''
                     else fmt (info_title i));
                  logo = (if info_poster_url i \<noteq> [] then info_poster_url i
                          else info_backdrop_url i);
                  overview = info_overview i;
                  group_title = category
              in Inr \<lparr>lines = lines b @ [extinf display_title logo group_title overview, url, []],
                      matched = matched b + 1, unmatched = unmatched b, lookup = st\<rparr>)
         | (Inr None, st) \<Rightarrow>
             (let display_title =
                    (if truthy year then title @ u '' ('' @ the year @ u '')'' else title);
                  logo = [];
                  overview = [];
                  group_title = category @ u '' [Unmatched]''
              in Inr \<lparr>lines = lines b @ [extinf display_title logo group_title overview, url, []],
                      matched = matched b, unmatched = unmatched b + 1, lookup = st\<rparr>))"

text \<open>The loop over the sorted entries.\<close>

fun build_loop ::
  "unicode \<Rightarrow> tmdb \<Rightarrow> ustring \<Rightarrow> build_state \<Rightarrow> entry list \<Rightarrow> error + build_state"
where
  "build_loop U api key b [] = Inr b"
| "build_loop U api key b (entry # rest) =
     (case build_step U api key b entry of
        Inl e \<Rightarrow> Inl e
      | Inr b' \<Rightarrow> build_loop U api key b' rest)"

text \<open>The state at the end of the loop of \<open>build_m3u\<close>, and the text returned.\<close>

definition build_m3u_run ::
  "unicode \<Rightarrow> tmdb \<Rightarrow> ustring \<Rightarrow> state \<Rightarrow> entry list \<Rightarrow> error + build_state"
where
  "build_m3u_run U api key st files =
     build_loop U api key
       \<lparr>lines = [u ''#EXTM3U'' @ [ord CHR 0x0A]], matched = 0, unmatched = 0, lookup = st\<rparr>
       (files_sorted U files)"

definition build_m3u ::
  "unicode \<Rightarrow> tmdb \<Rightarrow> ustring \<Rightarrow> state \<Rightarrow> entry list \<Rightarrow> error + ustring \<times> state"
where
  "build_m3u U api key st files =
     (case build_m3u_run U api key st files of
        Inl e \<Rightarrow> Inl e
      | Inr b \<Rightarrow> Inr (join [ord CHR 0x0A] (lines b), lookup b))"

text \<open>The playlist records of a list of lines: each group of three lines is a record
  (metadata line, URL line, blank line).\<close>

fun records :: "ustring list \<Rightarrow> (ustring \<times> ustring \<times> ustring) list" where
  "records (m # url # b # rest) = (m, url, b) # records rest"
| "records rest = []"

text \<open>The lines of a text: the pieces between its newline characters.\<close>

definition text_lines :: "ustring \<Rightarrow> ustring list" where
  "text_lines text = split_char (ord CHR 0x0A) text"

text \<open>Two entries of one category with the same file name, found in different
  folders below the category depth, and an entry of the top folder.\<close>

definition entry_c :: entry where
  "entry_c = \<lparr>e_url = u ''http://h/A/B/C/x.mkv'', e_filename = u ''x.mkv'',
     e_category = u ''A > B''\<rparr>"

definition entry_d :: entry where
  "entry_d = \<lparr>e_url = u ''http://h/A/B/D/x.mkv'', e_filename = u ''x.mkv'',
     e_category = u ''A > B''\<rparr>"

definition entry_matrix :: entry where
  "entry_matrix = \<lparr>e_url = u ''http://h/The.Matrix.1999.mkv'',
     e_filename = u ''The.Matrix.1999.mkv'', e_category = u ''Movies''\<rparr>"

section \<open>Directory crawler\<close>

text \<open>
  The environment variables read in the configuration block, and the value of
  \<open>BASE_URL\<close> computed from them in line 10.
\<close>

record environ =
  FTP_PUBLIC_URL :: "ustring option"
  TMDB_API_KEY :: "ustring option"

definition BASE_URL :: "environ \<Rightarrow> ustring" where
  "BASE_URL env =
     rstrip_chars (\<lambda>c. c = ord CHR ''/'')
       (case FTP_PUBLIC_URL env of Some v \<Rightarrow> v | None \<Rightarrow> u ''http://ftp.ctgfun.com'')
     @ u ''/''"

definition VIDEO_EXTENSIONS :: "ustring set" where
  "VIDEO_EXTENSIONS =
     {u ''.mkv'', u ''.mp4'', u ''.avi'', u ''.mov'', u ''.m4v'', u ''.ts'', u ''.wmv'',
      u ''.divx'', u ''.flv''}"

definition SKIP_FOLDERS :: "ustring set" where
  "SKIP_FOLDERS = {u ''..'', u ''.'', u ''''}"

definition MAX_CATEGORY_DEPTH :: nat where
  "MAX_CATEGORY_DEPTH = 2"

text \<open>
  What the crawler takes from outside: \<open>fetch url\<close> is the list of the \<open>href\<close> values
  of the anchors of the page at \<open>url\<close>, in document order, or \<open>None\<close> when the request
  raises a \<open>RequestException\<close>; \<open>urljoin\<close> and \<open>unquote\<close> are the functions of
  \<open>urllib.parse\<close>, about which nothing is assumed.
\<close>

record web =
  fetch :: "ustring \<Rightarrow> ustring list option"
  urljoin :: "ustring \<Rightarrow> ustring \<Rightarrow> ustring"
  unquote :: "ustring \<Rightarrow> ustring"

text \<open>
  The loop over the links of one page (lines 47 to 84).  Its parameter \<open>rec\<close> is the
  recursive call of \<open>crawl\<close>; the result \<open>None\<close> of that call (the recursion did not
  come back) ends the loop with \<open>None\<close>.
\<close>

fun crawl_links ::
  "(ustring \<Rightarrow> nat \<Rightarrow> ustring list \<Rightarrow> entry list option) \<Rightarrow> unicode \<Rightarrow> web \<Rightarrow> ustring
     \<Rightarrow> ustring \<Rightarrow> nat \<Rightarrow> ustring list \<Rightarrow> ustring list \<Rightarrow> entry list \<Rightarrow> entry list option"
where
  "crawl_links rec U w base url depth category_parts [] results = Some results"
| "crawl_links rec U w base url depth category_parts (link # links) results =
     (let href = strip U link in
      if href \<in> {u ''../'', u ''..'', u ''/'', u ''''} \<or> startswith href (u ''?'')
         \<or> startswith href (u ''#'')
         \<or> (startswith href (u ''http'') \<and> \<not> startswith href base)
      then crawl_links rec U w base url depth category_parts links results
      else
        let full_url = urljoin w url href;
            decoded_name = unquote w (rstrip_chars (\<lambda>c. c = ord CHR ''/'') href)
        in
          if \<not> startswith full_url base
          then crawl_links rec U w base url depth category_parts links results
          else if endswith href (u ''/'')
          then
            (let folder_name = decoded_name in
             if folder_name \<in> SKIP_FOLDERS
             then crawl_links rec U w base url depth category_parts links results
             else
               let new_parts =
                     (if depth < MAX_CATEGORY_DEPTH then category_parts @ [folder_name]
                      else category_parts)
               in case rec full_url (depth + 1) new_parts of
                    None \<Rightarrow> None
                  | Some found \<Rightarrow>
                      crawl_links rec U w base url depth category_parts links (results @ found))
          else
            (let ext = lower U (path_suffix decoded_name) in
             if ext \<notin> VIDEO_EXTENSIONS
             then crawl_links rec U w base url depth category_parts links results
             else
               let category =
                     (if category_parts \<noteq> [] then join (u '' > '') category_parts
                      else u ''Movies'')
               in crawl_links rec U w base url depth category_parts links
                    (results @ [\<lparr>e_url = full_url, e_filename = decoded_name,
                                 e_category = category\<rparr>])))"

text \<open>
  \<open>crawl\<close>.  The directory tree is not known to be finite or acyclic, so the recursion
  is bounded by a number of levels; \<open>None\<close> means that the bound was reached.  A failed
  request gives the empty result for that page.
\<close>

primrec crawl ::
  "nat \<Rightarrow> unicode \<Rightarrow> web \<Rightarrow> ustring \<Rightarrow> ustring \<Rightarrow> nat \<Rightarrow> ustring list \<Rightarrow> entry list option"
where
  "crawl 0 U w base url depth category_parts = None"
| "crawl (Suc fuel) U w base url depth category_parts =
     (case fetch w url of
        None \<Rightarrow> Some []
      | Some links \<Rightarrow>
          crawl_links (crawl fuel U w base) U w base url depth category_parts links [])"

text \<open>The category string of line 79 for a list of folder names.\<close>

definition category_path :: "ustring list \<Rightarrow> ustring" where
  "category_path parts = (if parts \<noteq> [] then join (u '' > '') parts else u ''Movies'')"

text \<open>A link that passes the filters of lines 51 to 61 and is taken as a folder into
  which \<open>crawl\<close> descends (lines 63 to 67).\<close>

definition folder_link :: "unicode \<Rightarrow> web \<Rightarrow> ustring \<Rightarrow> ustring \<Rightarrow> ustring \<Rightarrow> bool" where
  "folder_link U w base url link \<longleftrightarrow>
     (let href = strip U link in
      \<not> (href \<in> {u ''../'', u ''..'', u ''/'', u ''''} \<or> startswith href (u ''?'')
         \<or> startswith href (u ''#'')
         \<or> (startswith href (u ''http'') \<and> \<not> startswith href base))
      \<and> startswith (urljoin w url href) base
      \<and> endswith href (u ''/'')
      \<and> unquote w (rstrip_chars (\<lambda>c. c = ord CHR ''/'') href) \<notin> SKIP_FOLDERS)"

text \<open>
  The folders above each video.  \<open>walk\<close> is the traversal of \<open>crawl\<close> with the same
  filters and the same order, without depth and category: for every video it records
  the URL, the file name and the decoded names of all the folders entered on the way
  from the starting page down to the video, outermost first.  It is the reference
  against which the categories computed by \<open>crawl\<close> are stated.
\<close>

type_synonym located = "ustring \<times> ustring \<times> ustring list"

fun walk_links ::
  "(ustring \<Rightarrow> located list option) \<Rightarrow> unicode \<Rightarrow> web \<Rightarrow> ustring \<Rightarrow> ustring
     \<Rightarrow> ustring list \<Rightarrow> located list \<Rightarrow> located list option"
where
  "walk_links rec U w base url [] results = Some results"
| "walk_links rec U w base url (link # links) results =
     (let href = strip U link in
      if href \<in> {u ''../'', u ''..'', u ''/'', u ''''} \<or> startswith href (u ''?'')
         \<or> startswith href (u ''#'')
         \<or> (startswith href (u ''http'') \<and> \<not> startswith href base)
      then walk_links rec U w base url links results
      else
        let full_url = urljoin w url href;
            decoded_name = unquote w (rstrip_chars (\<lambda>c. c = ord CHR ''/'') href)
        in
          if \<not> startswith full_url base
          then walk_links rec U w base url links results
          else if endswith href (u ''/'')
          then
            (if decoded_name \<in> SKIP_FOLDERS
             then walk_links rec U w base url links results
             else
               case rec full_url of
                 None \<Rightarrow> None
               | Some found \<Rightarrow>
                   walk_links rec U w base url links
                     (results @ map (\<lambda>(v, f, path). (v, f, decoded_name # path)) found))
          else
            (if lower U (path_suffix decoded_name) \<notin> VIDEO_EXTENSIONS
             then walk_links rec U w base url links results
             else walk_links rec U w base url links (results @ [(full_url, decoded_name, [])])))"

primrec walk ::
  "nat \<Rightarrow> unicode \<Rightarrow> web \<Rightarrow> ustring \<Rightarrow> ustring \<Rightarrow> located list option"
where
  "walk 0 U w base url = None"
| "walk (Suc fuel) U w base url =
     (case fetch w url of
        None \<Rightarrow> Some []
      | Some links \<Rightarrow> walk_links (walk fuel U w base) U w base url links [])"

text \<open>
  The entry that a call of \<open>crawl\<close> at depth \<open>depth\<close> with the accumulated folder names
  \<open>parts\<close> is claimed to emit for a video below the folders \<open>path\<close>: of these folders,
  the first \<open>MAX_CATEGORY_DEPTH - depth\<close> are added to the category, the deeper ones
  are not.
\<close>

definition entry_at :: "nat \<Rightarrow> ustring list \<Rightarrow> located \<Rightarrow> entry" where
  "entry_at depth parts l =
     (case l of (v, f, path) \<Rightarrow>
        \<lparr>e_url = v, e_filename = f,
         e_category = category_path (parts @ take (MAX_CATEGORY_DEPTH - depth) path)\<rparr>)"

section \<open>Main program\<close>

text \<open>
  \<open>write_text\<close> opens the file, which creates it empty, and encodes the text as UTF-8
  before it writes anything; the encoder refuses the surrogate code points with
  \<open>UnicodeEncodeError\<close>.
\<close>

definition utf8_encodable :: "ustring \<Rightarrow> bool" where
  "utf8_encodable text \<longleftrightarrow> list_all (\<lambda>c. \<not> between 0xD800 0xDFFF c) text"

text \<open>
  The outcome of a run: the exit status of the process and the contents of
  \<open>OUTPUT_FILE\<close> at the end, \<open>None\<close> when the file was not created.  A missing
  \<open>TMDB_API_KEY\<close> raises \<open>KeyError\<close> in line 11, which ends the process with status 1
  before anything else happens; so does, later, any exception that leaves \<open>build_m3u\<close>
  or \<open>write_text\<close>.  What the program prints is not part of the outcome, and printing
  is taken to succeed.
\<close>

record outcome =
  exit_status :: nat
  written :: "ustring option"

definition main :: "nat \<Rightarrow> unicode \<Rightarrow> environ \<Rightarrow> web \<Rightarrow> tmdb \<Rightarrow> outcome option" where
  "main fuel U env w api =
     (case TMDB_API_KEY env of
        None \<Rightarrow> Some \<lparr>exit_status = 1, written = None\<rparr>
      | Some key \<Rightarrow>
          (case crawl fuel U w (BASE_URL env) (BASE_URL env) 0 [] of
             None \<Rightarrow> None
           | Some files \<Rightarrow>
               if files = [] then Some \<lparr>exit_status = 1, written = None\<rparr>
               else
                 (case build_m3u U api key empty_state files of
                    Inl e \<Rightarrow> Some \<lparr>exit_status = 1, written = None\<rparr>
                  | Inr (m3u, st) \<Rightarrow>
                      if utf8_encodable m3u then Some \<lparr>exit_status = 0, written = Some m3u\<rparr>
                      else Some \<lparr>exit_status = 1, written = Some []\<rparr>)))"

text \<open>A small site used as an example, with folders three levels deep, and a site
  that cannot be reached.\<close>

definition site_fetch :: "ustring \<Rightarrow> ustring list option" where
  "site_fetch url =
     (if url = u ''http://h/''
      then Some [u ''../'', u ''Action/'', u ''readme.txt'', u ''top.mkv'']
      else if url = u ''http://h/Action/'' then Some [u ''../'', u ''SciFi/'', u ''a.MP4'']
      else if url = u ''http://h/Action/SciFi/'' then Some [u ''Deep/'']
      else if url = u ''http://h/Action/SciFi/Deep/'' then Some [u ''The.Matrix.1999.mkv'']
      else None)"

definition site :: web where
  "site = \<lparr>fetch = site_fetch, urljoin = (\<lambda>base href. base @ href), unquote = (\<lambda>s. s)\<rparr>"

definition site_down :: web where
  "site_down = \<lparr>fetch = (\<lambda>url. None), urljoin = (\<lambda>base href. base @ href), unquote = (\<lambda>s. s)\<rparr>"

definition site_environ :: environ where
  "site_environ = \<lparr>FTP_PUBLIC_URL = Some (u ''http://h''), TMDB_API_KEY = Some (u ''k'')\<rparr>"

section \<open>Properties of the filename parser\<close>

lemma search_year_SomeD:
  assumes "search_year U s = Some i"
  shows "year_at U s i" and "\<forall>k<i. \<not> year_at U s k" and "i \<le> length s"
proof -
  from assms obtain n where n: "n < length [0 ..< Suc (length s)]"
      "year_at U s ([0 ..< Suc (length s)] ! n)" "i = [0 ..< Suc (length s)] ! n"
      "\<forall>k<n. \<not> year_at U s ([0 ..< Suc (length s)] ! k)"
    unfolding search_year_def find_Some_iff by blast
  from n(1) have ln: "n < Suc (length s)" by simp
  then have nth: "[0 ..< Suc (length s)] ! n = n"
    using nth_upt[of 0 n "Suc (length s)"] by simp
  with n(3) have "i = n" by simp
  show "year_at U s i" using n(2) n(3) by simp
  show "i \<le> length s" using \<open>i = n\<close> ln by simp
  show "\<forall>k<i. \<not> year_at U s k"
  proof (intro allI impI)
    fix k assume "k < i"
    then have "k < n" using \<open>i = n\<close> by simp
    moreover have "[0 ..< Suc (length s)] ! k = k"
      using \<open>k < n\<close> ln nth_upt[of 0 k "Suc (length s)"] by simp
    ultimately show "\<not> year_at U s k" using n(4) by auto
  qed
qed

lemma search_year_None_iff: "search_year U s = None \<longleftrightarrow> (\<forall>i. \<not> year_at U s i)"
proof -
  have "year_at U s i \<Longrightarrow> i \<le> length s" for i by (simp add: year_at_def)
  then have "year_at U s i \<Longrightarrow> i \<in> set [0 ..< Suc (length s)]" for i by fastforce
  then show ?thesis unfolding search_year_def find_None_iff by blast
qed

lemma year_at_token:
  assumes "year_at U s i"
  shows "length (take 4 (drop i s)) = 4"
    and "take 2 (take 4 (drop i s)) = u ''19'' \<or> take 2 (take 4 (drop i s)) = u ''20''"
    and "list_all (isdecimal U) (drop 2 (take 4 (drop i s)))"
proof -
  from assms have len: "i + 4 \<le> length s"
    and d2: "isdecimal U (s ! (i + 2))" and d3: "isdecimal U (s ! (i + 3))"
    and pre: "take 2 (drop i s) = u ''19'' \<or> take 2 (drop i s) = u ''20''"
    by (simp_all add: year_at_def)
  show "length (take 4 (drop i s)) = 4" using len by simp
  show "take 2 (take 4 (drop i s)) = u ''19'' \<or> take 2 (take 4 (drop i s)) = u ''20''"
    using pre by simp
  have t4: "take 4 (drop i s) = take 2 (drop i s) @ [s ! (i + 2), s ! (i + 3)]"
  proof -
    have "take 4 (drop i s) = take 2 (drop i s) @ take 2 (drop (i + 2) s)"
      using take_add[of 2 2 "drop i s"] by (simp add: add.commute)
    moreover have "take 2 (drop (i + 2) s) = [s ! (i + 2), s ! (i + 3)]"
    proof -
      have "length (drop (i + 2) s) \<ge> 2" using len by simp
      then obtain a b r where r: "drop (i + 2) s = a # b # r"
        by (cases "drop (i + 2) s"; cases "tl (drop (i + 2) s)") auto
      have "a = drop (i + 2) s ! 0" "b = drop (i + 2) s ! 1" using r by simp_all
      then have "a = s ! (i + 2)" "b = s ! (i + 3)"
        using len by (simp_all add: add.commute eval_nat_numeral)
      then show ?thesis using r by simp
    qed
    ultimately show ?thesis by simp
  qed
  show "list_all (isdecimal U) (drop 2 (take 4 (drop i s)))"
  proof -
    have "length (take 2 (drop i s)) = 2" using len by simp
    then have "drop 2 (take 4 (drop i s)) = [s ! (i + 2), s ! (i + 3)]"
      unfolding t4 by simp
    then show ?thesis using d2 d3 by simp
  qed
qed

text \<open>
  Claim C9 does not hold as stated: the class \<open>\d\<close> of the pattern of line 94 is not
  restricted to ASCII.  For the file name \<open>X.19\<close> followed by two Arabic-Indic digits
  nine (U+0669) and \<open>.mkv\<close> the year returned is \<open>19\<close> followed by these two characters,
  which are not among \<open>0\<close> to \<open>9\<close>.
\<close>

theorem parse_movie_name_year_not_ascii:
  "parse_movie_name tables (u ''X.19'' @ [0x669, 0x669] @ u ''.mkv'')
     = (u ''X'', Some (u ''19'' @ [0x669, 0x669]))
   \<and> \<not> list_all ascii_digit (u ''19'' @ [0x669, 0x669])"
  by code_simp

text \<open>
  Claim C9, amended.  For every filename (and whatever the Unicode tables of the
  interpreter), the year returned by \<open>parse_movie_name\<close> is either absent or a string of
  exactly four characters: \<open>19\<close> or \<open>20\<close> followed by two characters of the class \<open>\d\<close>,
  the Unicode decimal digits.
\<close>

theorem parse_movie_name_year_shape:
  "snd (parse_movie_name U filename) = None \<or>
   (\<exists>y. snd (parse_movie_name U filename) = Some y \<and> length y = 4
      \<and> (take 2 y = u ''19'' \<or> take 2 y = u ''20'') \<and> list_all (isdecimal U) (drop 2 y))"
proof (cases "search_year U (sub_dots (path_stem filename))")
  case None
  then show ?thesis by (simp add: parse_movie_name_def split_year_def)
next
  case (Some i)
  then have y: "year_at U (sub_dots (path_stem filename)) i" by (rule search_year_SomeD)
  have "snd (parse_movie_name U filename) = Some (take 4 (drop i (sub_dots (path_stem filename))))"
    using Some by (simp add: parse_movie_name_def split_year_def Let_def)
  then show ?thesis using year_at_token[OF y] by simp
qed

lemma subseq_dropWhile: "subseq (dropWhile P s) s"
  by (induction s) auto

lemma subseq_strip_chars: "subseq (strip_chars P s) s"
proof -
  have "rev (dropWhile P (rev xs)) = take (length xs - length (takeWhile P (rev xs))) xs" for xs
    by (simp add: dropWhile_eq_drop rev_drop)
  moreover have "subseq (take n xs) xs" for n xs
    by (metis append_take_drop_id subseq_rev_drop_many subseq_order.order_refl)
  ultimately have "subseq (rev (dropWhile P (rev (dropWhile P s)))) (dropWhile P s)"
    by simp
  then show ?thesis
    unfolding strip_chars_def rstrip_chars_def lstrip_chars_def
    using subseq_dropWhile[of P s] subseq_order.order_trans by blast
qed

lemma subseq_strip: "subseq (strip U s) s"
  unfolding strip_def by (rule subseq_strip_chars)

lemma dot_star_eol_ge: "dot_star_eol s p = Some e \<Longrightarrow> p \<le> e"
  by (auto simp: dot_star_eol_def Let_def split: if_splits)

lemma tag_rest_at_ge: "tag_rest_at U s p = Some e \<Longrightarrow> p \<le> e"
  by (auto simp: tag_rest_at_def split: option.splits dest!: dot_star_eol_ge)

lemma tag_match_at_SomeD:
  assumes "tag_match_at U s i = Some e"
  shows "i < e" and "takeWhile (isspace U) (drop i s) \<noteq> []"
proof -
  let ?n = "length (takeWhile (isspace U) (drop i s))"
  from assms obtain p where p: "List.find (\<lambda>p. tag_rest_at U s p \<noteq> None) (rev [Suc i ..< Suc (i + ?n)]) = Some p"
      and e: "tag_rest_at U s p = Some e"
    by (auto simp: tag_match_at_def Let_def split: option.splits)
  from p have "p \<in> set (rev [Suc i ..< Suc (i + ?n)])"
    unfolding find_Some_iff by (metis nth_mem)
  then have "i < p" "0 < ?n" by auto
  with tag_rest_at_ge[OF e] show "i < e" by simp
  from \<open>0 < ?n\<close> show "takeWhile (isspace U) (drop i s) \<noteq> []" by simp
qed

lemma strip_tags_cases:
  obtains "strip_tags U s = s"
  | i e where "strip_tags U s = take i s @ drop e s" "i < e" "i < length s" "isspace U (s ! i)"
proof (cases "List.find (\<lambda>i. tag_match_at U s i \<noteq> None) [0 ..< length s]")
  case None
  then have "strip_tags U s = s" by (simp add: strip_tags_def)
  then show ?thesis by (rule that(1))
next
  case (Some i)
  then have m: "tag_match_at U s i \<noteq> None" and "i \<in> set [0 ..< length s]"
    unfolding find_Some_iff by (auto simp del: upt_Suc set_upt intro: nth_mem)
  then have il: "i < length s" by simp
  from m obtain e where e: "tag_match_at U s i = Some e" by auto
  have st: "strip_tags U s = take i s @ drop e s" using Some e by (simp add: strip_tags_def)
  from tag_match_at_SomeD[OF e] have "i < e" and ne: "takeWhile (isspace U) (drop i s) \<noteq> []" by auto
  from ne have "isspace U (hd (drop i s))" by (metis hd_in_set set_takeWhileD takeWhile_eq_Nil_iff hd_append2 takeWhile_dropWhile_id)
  then have "isspace U (s ! i)" using il by (simp add: hd_drop_conv_nth)
  with st \<open>i < e\<close> il show ?thesis by (rule that(2))
qed

lemma subseq_strip_tags: "subseq (strip_tags U s) s"
proof (cases rule: strip_tags_cases[of U s])
  case 1
  then show ?thesis by simp
next
  case (2 i e)
  have "drop i s = take (e - i) (drop i s) @ drop e s"
    using 2(2) by (metis append_take_drop_id drop_drop le_add_diff_inverse2 less_imp_le_nat)
  then have "subseq (drop e s) (drop i s)" by (metis subseq_drop_many subseq_order.order_refl)
  then have "subseq (take i s @ drop e s) (take i s @ drop i s)"
    by (simp only: subseq_append')
  then show ?thesis using 2(1) by simp
qed

lemma subseq_clean_title: "subseq (clean_title U t) t"
proof -
  have "subseq (clean_title U t) (filter (\<lambda>c. \<not> is_bracket c) (strip U (strip_chars is_trim_char (strip_tags U t))))"
    unfolding clean_title_def by (rule subseq_strip)
  also have "subseq \<dots> (strip U (strip_chars is_trim_char (strip_tags U t)))" by (rule subseq_filter_left)
  also have "subseq \<dots> (strip_chars is_trim_char (strip_tags U t))" by (rule subseq_strip)
  also have "subseq \<dots> (strip_tags U t)" by (rule subseq_strip_chars)
  also have "subseq \<dots> t" by (rule subseq_strip_tags)
  finally show ?thesis .
qed

text \<open>
  Claim C3.  If the stem of the filename, with dots and underscores replaced by spaces,
  contains a standalone four-digit token beginning with \<open>19\<close> or \<open>20\<close> (a match of the
  year pattern at some position \<open>j\<close>), then \<open>parse_movie_name\<close> returns the first such
  token as the year, and the title is computed from the text before that token only: it
  is the cleaned prefix, a subsequence of the characters that precede the token.
\<close>

theorem parse_movie_name_year_token:
  assumes "year_at U (sub_dots (path_stem filename)) j"
  shows "\<exists>i\<le>j. year_at U (sub_dots (path_stem filename)) i
            \<and> (\<forall>k<i. \<not> year_at U (sub_dots (path_stem filename)) k)
            \<and> snd (parse_movie_name U filename)
                = Some (take 4 (drop i (sub_dots (path_stem filename))))
            \<and> fst (parse_movie_name U filename)
                = clean_title U (strip U (take i (sub_dots (path_stem filename))))
            \<and> subseq (fst (parse_movie_name U filename))
                (take i (sub_dots (path_stem filename)))"
proof -
  let ?name = "sub_dots (path_stem filename)"
  from assms obtain i where i: "search_year U ?name = Some i"
    using search_year_None_iff[of U ?name] by (cases "search_year U ?name") auto
  note d = search_year_SomeD[OF i]
  have "i \<le> j" using d(2) assms by (meson not_le_imp_less)
  moreover have p: "parse_movie_name U filename
      = (clean_title U (strip U (take i ?name)), Some (take 4 (drop i ?name)))"
    using i by (simp add: parse_movie_name_def split_year_def Let_def)
  moreover have "subseq (clean_title U (strip U (take i ?name))) (take i ?name)"
    using subseq_clean_title subseq_strip subseq_order.order_trans by blast
  ultimately show ?thesis using d(1) d(2) by auto
qed

theorem parse_movie_name_year_token_witness:
  "year_at tables (sub_dots (path_stem (u ''The.Matrix.1999.1080p.BluRay.x264.mkv''))) 11
   \<and> parse_movie_name tables (u ''The.Matrix.1999.1080p.BluRay.x264.mkv'') = (u ''The Matrix'', Some (u ''1999''))
   \<and> (\<exists>i\<le>11. snd (parse_movie_name tables (u ''The.Matrix.1999.1080p.BluRay.x264.mkv''))
                = Some (take 4 (drop i (sub_dots (path_stem (u ''The.Matrix.1999.1080p.BluRay.x264.mkv''))))))"
proof -
  have h: "year_at tables (sub_dots (path_stem (u ''The.Matrix.1999.1080p.BluRay.x264.mkv''))) 11"
    by code_simp
  have e: "parse_movie_name tables (u ''The.Matrix.1999.1080p.BluRay.x264.mkv'')
      = (u ''The Matrix'', Some (u ''1999''))"
    by code_simp
  from parse_movie_name_year_token[OF h] h e show ?thesis by blast
qed

lemma mem_dropWhile: "c \<in> set s \<Longrightarrow> \<not> P c \<Longrightarrow> c \<in> set (dropWhile P s)"
  by (induction s) auto

lemma mem_strip_chars: "c \<in> set s \<Longrightarrow> \<not> P c \<Longrightarrow> c \<in> set (strip_chars P s)"
  unfolding strip_chars_def rstrip_chars_def lstrip_chars_def
  by (simp add: mem_dropWhile)

lemma solid_not_bracket: "solid_char U c \<Longrightarrow> \<not> is_bracket c"
  by (auto simp: solid_char_def is_trim_char_def is_bracket_def u_def)

lemma clean_title_solid:
  assumes "c \<in> set (strip_tags U t)" "solid_char U c"
  shows "c \<in> set (clean_title U t)"
proof -
  from assms(2) have ns: "\<not> isspace U c" and nt: "\<not> is_trim_char c"
    by (simp_all add: solid_char_def)
  from assms(2) have nb: "\<not> is_bracket c" by (rule solid_not_bracket)
  have "c \<in> set (strip_chars is_trim_char (strip_tags U t))" using assms(1) nt by (rule mem_strip_chars)
  then have "c \<in> set (strip U (strip_chars is_trim_char (strip_tags U t)))"
    unfolding strip_def using ns by (rule mem_strip_chars)
  then have "c \<in> set (filter (\<lambda>c. \<not> is_bracket c) (strip U (strip_chars is_trim_char (strip_tags U t))))"
    using nb by simp
  then show ?thesis unfolding clean_title_def strip_def using ns by (rule mem_strip_chars)
qed

lemma hd_strip_tags:
  assumes "t \<noteq> []" "\<not> isspace U (hd t)"
  shows "hd t \<in> set (strip_tags U t)"
proof (cases rule: strip_tags_cases[of U t])
  case 1
  then show ?thesis using assms(1) by simp
next
  case (2 i e)
  have "i \<noteq> 0"
  proof
    assume "i = 0"
    then have "isspace U (t ! 0)" using 2(4) by simp
    then show False using assms by (simp add: hd_conv_nth)
  qed
  then have "hd t \<in> set (take i t)" using assms(1) by (cases t; cases i) auto
  then show ?thesis using 2(1) by simp
qed

text \<open>
  Claim C1 does not hold as stated: \<open>parse_movie_name\<close> has no fallback to the
  provisional title, and the title it returns can be empty.  The file \<open>- 720p.mkv\<close> has
  the provisional title \<open>- 720p\<close> and the returned title is empty; the file \<open>2012.mkv\<close>
  has an empty provisional title already.
\<close>

theorem parse_movie_name_empty_title:
  "fst (parse_movie_name tables (u ''- 720p.mkv'')) = []
   \<and> fst (split_year tables (sub_dots (path_stem (u ''- 720p.mkv'')))) = u ''- 720p''
   \<and> parse_movie_name tables (u ''2012.mkv'') = ([], Some (u ''2012''))"
  by code_simp

text \<open>
  Claim C1, amended.  \<open>parse_movie_name\<close> returns a non-empty title whenever the
  provisional title, once the tag pattern has been removed, still contains a character
  other than white space, \<open>-\<close>, \<open>[\<close>, \<open>]\<close>, \<open>(\<close> and \<open>)\<close>; in particular whenever the
  provisional title begins with such a character.
\<close>

theorem parse_movie_name_title_nonempty:
  "(list_ex (solid_char U) (strip_tags U (fst (split_year U (sub_dots (path_stem filename)))))
      \<longrightarrow> fst (parse_movie_name U filename) \<noteq> [])
   \<and> (fst (split_year U (sub_dots (path_stem filename))) \<noteq> []
        \<and> solid_char U (hd (fst (split_year U (sub_dots (path_stem filename)))))
      \<longrightarrow> fst (parse_movie_name U filename) \<noteq> [])"
proof -
  let ?prov = "fst (split_year U (sub_dots (path_stem filename)))"
  have t: "fst (parse_movie_name U filename) = clean_title U ?prov"
    by (simp add: parse_movie_name_def Let_def split: prod.splits)
  have a: "fst (parse_movie_name U filename) \<noteq> []" if "list_ex (solid_char U) (strip_tags U ?prov)"
  proof -
    from that obtain c where "c \<in> set (strip_tags U ?prov)" "solid_char U c"
      by (auto simp: list_ex_iff)
    then have "c \<in> set (clean_title U ?prov)" by (rule clean_title_solid)
    then show ?thesis unfolding t by auto
  qed
  have b: "list_ex (solid_char U) (strip_tags U ?prov)" if "?prov \<noteq> []" "solid_char U (hd ?prov)"
    using hd_strip_tags[OF that(1)] that(2) by (auto simp: list_ex_iff solid_char_def)
  from a b show ?thesis by blast
qed

theorem parse_movie_name_title_nonempty_witness:
  "list_ex (solid_char tables) (strip_tags tables (fst (split_year tables (sub_dots
      (path_stem (u ''The.Matrix.1999.1080p.BluRay.x264.mkv''))))))
   \<and> fst (split_year tables (sub_dots (path_stem (u ''The.Matrix.1999.1080p.BluRay.x264.mkv'')))) \<noteq> []
   \<and> solid_char tables (hd (fst (split_year tables (sub_dots
      (path_stem (u ''The.Matrix.1999.1080p.BluRay.x264.mkv''))))))
   \<and> fst (parse_movie_name tables (u ''The.Matrix.1999.1080p.BluRay.x264.mkv'')) \<noteq> []"
proof -
  have h: "list_ex (solid_char tables) (strip_tags tables (fst (split_year tables (sub_dots
      (path_stem (u ''The.Matrix.1999.1080p.BluRay.x264.mkv''))))))"
    by code_simp
  have h2: "fst (split_year tables (sub_dots (path_stem (u ''The.Matrix.1999.1080p.BluRay.x264.mkv'')))) \<noteq> []
    \<and> solid_char tables (hd (fst (split_year tables (sub_dots
      (path_stem (u ''The.Matrix.1999.1080p.BluRay.x264.mkv''))))))"
    by code_simp
  show ?thesis
    using parse_movie_name_title_nonempty[of tables "u ''The.Matrix.1999.1080p.BluRay.x264.mkv''"] h h2
    by blast
qed

section \<open>Properties of the metadata lookup\<close>

lemma attempts_cache: "cache (snd (attempts api p n st)) = cache st"
proof (induction n arbitrary: st)
  case 0
  show ?case by simp
next
  case (Suc n)
  show ?case
  proof (cases "api (length (sent st)) p")
    case RequestException
    then have "attempts api p (Suc n) st = attempts api p n (st\<lparr>sent := sent st @ [p]\<rparr>)"
      by (simp add: Let_def)
    then show ?thesis using Suc.IH[of "st\<lparr>sent := sent st @ [p]\<rparr>"] by simp
  next
    case (Results ms)
    then show ?thesis by (simp add: Let_def)
  qed
qed

lemma attempts_sent:
  "\<exists>k\<le>n. sent (snd (attempts api p n st)) = sent st @ replicate k p
      \<and> (fst (attempts api p n st) = None \<longrightarrow> k = n)"
proof (induction n arbitrary: st)
  case 0
  show ?case by (intro exI[of _ 0]) simp
next
  case (Suc n)
  let ?st' = "st\<lparr>sent := sent st @ [p]\<rparr>"
  show ?case
  proof (cases "api (length (sent st)) p")
    case RequestException
    from Suc.IH[of ?st'] obtain k where k: "k \<le> n"
      "sent (snd (attempts api p n ?st')) = sent ?st' @ replicate k p"
      "fst (attempts api p n ?st') = None \<longrightarrow> k = n" by (elim exE conjE)
    have "sent (snd (attempts api p (Suc n) st)) = sent st @ replicate (Suc k) p"
      using RequestException k(2) by (simp add: Let_def replicate_app_Cons_same)
    moreover have "fst (attempts api p (Suc n) st) = None \<longrightarrow> Suc k = Suc n"
      using RequestException k(3) by (simp add: Let_def)
    ultimately show ?thesis using k(1) by (intro exI[of _ "Suc k"]) simp
  next
    case (Results ms)
    then have e: "attempts api p (Suc n) st = (Some ms, ?st')"
      by (simp add: Let_def)
    have "1 \<le> Suc n \<and> sent (snd (attempts api p (Suc n) st)) = sent st @ replicate 1 p
        \<and> (fst (attempts api p (Suc n) st) = None \<longrightarrow> 1 = Suc n)"
      unfolding e by simp
    then show ?thesis by (rule exI[of _ 1])
  qed
qed

lemma attempts_first_ok:
  "api (length (sent st)) p = Results ms \<Longrightarrow>
   attempts api p (Suc n) st = (Some ms, st\<lparr>sent := sent st @ [p]\<rparr>)"
  by (simp add: Let_def)

lemma tmdb_search_hit:
  "cache st (cache_key title year) = Some v \<Longrightarrow> tmdb_search api key st title year = (Inr v, st)"
  by (simp add: tmdb_search.simps[of api key st title year])

lemma tmdb_search_sent_noyear:
  "\<exists>k\<le>3. sent (snd (tmdb_search api key st title None)) = sent st @ replicate k (search_params key title None)"
proof (cases "cache st (cache_key title None)")
  case (Some v)
  then show ?thesis by (intro exI[of _ 0]) (simp add: tmdb_search_hit)
next
  case None
  obtain res st1 where a: "attempts api (search_params key title None) 3 st = (res, st1)"
    by (cases "attempts api (search_params key title None) 3 st")
  from attempts_sent[of 3 api "search_params key title None" st] a
  obtain k where k: "k \<le> 3" "sent st1 = sent st @ replicate k (search_params key title None)" by auto
  have "sent (snd (tmdb_search api key st title None)) = sent st1"
    using None a
    by (cases res)
      (simp_all add: tmdb_search.simps[of api key st title None] truthy_def split: sum.splits)
  with k show ?thesis by auto
qed

text \<open>
  Claim C2 does not hold as stated.  With a service that finds nothing, the first call
  for \<open>("T", "1999")\<close> sends two requests (with and without the year filter) and
  stores the outcome under the key without year only; the second, identical call sends
  the request with the year filter again, three requests in total.  With an unreachable
  service a single call sends three requests.
\<close>

theorem tmdb_search_repeated_requests:
  "sent (snd (tmdb_search service_empty (u ''k'') empty_state (u ''T'') (Some (u ''1999''))))
     = [search_params (u ''k'') (u ''T'') (Some (u ''1999'')), search_params (u ''k'') (u ''T'') None]
   \<and> sent (snd (tmdb_search service_empty (u ''k'')
         (snd (tmdb_search service_empty (u ''k'') empty_state (u ''T'') (Some (u ''1999'')))) (u ''T'') (Some (u ''1999''))))
     = [search_params (u ''k'') (u ''T'') (Some (u ''1999'')), search_params (u ''k'') (u ''T'') None,
        search_params (u ''k'') (u ''T'') (Some (u ''1999''))]
   \<and> length (sent (snd (tmdb_search service_down (u ''k'') empty_state (u ''T'') None))) = 3"
  by code_simp

text \<open>
  Claim C2, amended.  Unless the first call takes the year-less fallback, when the
  first call returns (a record or no match), a second call with the identical title and
  year is a cache hit: whatever the service would answer, it returns the result of the
  first call and leaves the state, and so the list of requests sent, unchanged.  The
  first call sends at most three requests, all with the parameters of the call.
\<close>

theorem tmdb_search_second_call_cached:
  assumes nf: "\<not> fallback_taken api key st title year"
      and run: "tmdb_search api key st title year = (Inr r, st')"
  shows "tmdb_search api2 key st' title year = (Inr r, st')
     \<and> (\<exists>k\<le>3. sent st' = sent st @ replicate k (search_params key title year))"
proof (cases "cache st (cache_key title year)")
  case (Some v)
  with run have "r = v" "st' = st" by (simp_all add: tmdb_search_hit)
  with Some have "tmdb_search api2 key st' title year = (Inr r, st')
      \<and> 0 \<le> (3::nat) \<and> sent st' = sent st @ replicate 0 (search_params key title year)"
    by (simp add: tmdb_search_hit)
  then show ?thesis by (intro conjI exI[of _ 0]) simp_all
next
  case None
  let ?p = "search_params key title year"
  obtain res st1 where a: "attempts api ?p 3 st = (res, st1)"
    by (cases "attempts api ?p 3 st")
  from attempts_sent[of 3 api ?p st] a
  obtain k where k: "k \<le> 3" "sent st1 = sent st @ replicate k ?p" by auto
  from nf None a have nofb: "\<not> (res = Some [] \<and> truthy year)"
    by (auto simp: fallback_taken_def)
  have st': "st' = st1\<lparr>cache := (cache st1)(cache_key title year \<mapsto> r)\<rparr>"
  proof (cases res)
    case None
    with run \<open>cache st (cache_key title year) = None\<close> a show ?thesis
      by (simp add: tmdb_search.simps[of api key st title year])
  next
    case (Some results)
    show ?thesis
    proof (cases "results = []")
      case True
      with Some nofb have "\<not> truthy year" by simp
      with run \<open>cache st (cache_key title year) = None\<close> a Some True show ?thesis
        by (simp add: tmdb_search.simps[of api key st title year])
    next
      case False
      with run \<open>cache st (cache_key title year) = None\<close> a Some show ?thesis
        by (cases "make_info (hd results) title year")
          (auto simp: tmdb_search.simps[of api key st title year])
    qed
  qed
  then have "cache st' (cache_key title year) = Some r" by simp
  then have "tmdb_search api2 key st' title year = (Inr r, st')" by (rule tmdb_search_hit)
  moreover have "k \<le> 3 \<and> sent st' = sent st @ replicate k ?p" using st' k by simp
  then have "\<exists>k\<le>3. sent st' = sent st @ replicate k ?p" by (rule exI[of _ k])
  ultimately show ?thesis by (intro conjI)
qed

theorem tmdb_search_second_call_cached_witness:
  "\<not> fallback_taken service_matrix (u ''k'') empty_state (u ''The Matrix'') None
   \<and> fst (tmdb_search service_matrix (u ''k'') empty_state (u ''The Matrix'') None)
     = Inr (Some matrix_info)
   \<and> tmdb_search service_down (u ''k'')
        (snd (tmdb_search service_matrix (u ''k'') empty_state (u ''The Matrix'') None))
        (u ''The Matrix'') None
     = tmdb_search service_matrix (u ''k'') empty_state (u ''The Matrix'') None"
proof -
  let ?first = "tmdb_search service_matrix (u ''k'') empty_state (u ''The Matrix'') None"
  have nf: "\<not> fallback_taken service_matrix (u ''k'') empty_state (u ''The Matrix'') None"
    by (simp add: fallback_taken_def truthy_def)
  have r: "fst ?first = Inr (Some matrix_info)"
    by code_simp
  have run: "?first = (Inr (Some matrix_info), snd ?first)"
    using r by (metis prod.collapse)
  from tmdb_search_second_call_cached[OF nf run, of service_down]
  have "tmdb_search service_down (u ''k'') (snd ?first) (u ''The Matrix'') None
      = (Inr (Some matrix_info), snd ?first)"
    by (rule conjunct1)
  with run have "tmdb_search service_down (u ''k'') (snd ?first) (u ''The Matrix'') None = ?first"
    by simp
  with nf r show ?thesis by (intro conjI)
qed

text \<open>
  Claim C6.  When a year was supplied, the pair is not cached and the search with the
  year filter succeeds with zero results, the result of \<open>tmdb_search\<close> is that of one
  recursive call for the same title without year.  All requests sent after the empty
  answer carry the same title and no year filter, and there are at most three of them
  (none when the year-less key is cached, more than one only when an attempt fails).
  When the year-less key is not cached and the service answers the first such request,
  exactly one fallback request is sent and no match is declared exactly when it yields
  no result.
\<close>

theorem tmdb_search_single_fallback:
  assumes miss: "cache st (cache_key title (Some y)) = None" and y: "y \<noteq> []"
      and first: "attempts api (search_params key title (Some y)) 3 st = (Some [], st1)"
  shows "tmdb_search api key st title (Some y) = tmdb_search api key st1 title None
     \<and> (\<exists>k\<le>3. sent (snd (tmdb_search api key st title (Some y)))
                 = sent st1 @ replicate k (search_params key title None))
     \<and> (\<forall>ms. cache st (cache_key title None) = None
             \<and> api (length (sent st1)) (search_params key title None) = Results ms
          \<longrightarrow> sent (snd (tmdb_search api key st title (Some y)))
                 = sent st1 @ [search_params key title None]
              \<and> (fst (tmdb_search api key st title (Some y)) = Inr None \<longleftrightarrow> ms = []))"
proof -
  have eq: "tmdb_search api key st title (Some y) = tmdb_search api key st1 title None"
    using miss y first by (simp add: tmdb_search.simps[of api key st title "Some y"] truthy_def)
  have c1: "cache st1 = cache st"
    using attempts_cache[of api "search_params key title (Some y)" 3 st] first by simp
  have one: "sent (snd (tmdb_search api key st1 title None)) = sent st1 @ [search_params key title None]
              \<and> (fst (tmdb_search api key st1 title None) = Inr None \<longleftrightarrow> ms = [])"
    if "cache st (cache_key title None) = None"
       "api (length (sent st1)) (search_params key title None) = Results ms" for ms
  proof -
    have "attempts api (search_params key title None) 3 st1
        = (Some ms, st1\<lparr>sent := sent st1 @ [search_params key title None]\<rparr>)"
      using attempts_first_ok[of api st1 "search_params key title None" ms 2] that(2)
      by (simp add: eval_nat_numeral)
    then show ?thesis using that(1) c1
      by (cases "make_info (hd ms) title None")
        (simp_all add: tmdb_search.simps[of api key st1 title None] truthy_def)
  qed
  show ?thesis unfolding eq using tmdb_search_sent_noyear[of api key st1 title] one
    by (intro conjI allI impI) simp_all
qed

theorem tmdb_search_single_fallback_witness:
  "cache empty_state (cache_key (u ''The Matrix'') (Some (u ''1999''))) = None
   \<and> attempts service_matrix (search_params (u ''k'') (u ''The Matrix'') (Some (u ''1999''))) 3 empty_state
      = (Some [], empty_state\<lparr>sent := [search_params (u ''k'') (u ''The Matrix'') (Some (u ''1999''))]\<rparr>)
   \<and> sent (snd (tmdb_search service_matrix (u ''k'') empty_state (u ''The Matrix'') (Some (u ''1999''))))
      = [search_params (u ''k'') (u ''The Matrix'') (Some (u ''1999'')), search_params (u ''k'') (u ''The Matrix'') None]
   \<and> fst (tmdb_search service_matrix (u ''k'') empty_state (u ''The Matrix'') (Some (u ''1999''))) \<noteq> Inr None"
proof -
  have miss: "cache empty_state (cache_key (u ''The Matrix'') (Some (u ''1999''))) = None"
    by (simp add: empty_state_def)
  have y: "u ''1999'' \<noteq> []" by (simp add: u_def)
  have first: "attempts service_matrix (search_params (u ''k'') (u ''The Matrix'') (Some (u ''1999''))) 3 empty_state
      = (Some [], empty_state\<lparr>sent := [search_params (u ''k'') (u ''The Matrix'') (Some (u ''1999''))]\<rparr>)"
    by (simp add: eval_nat_numeral service_matrix_def search_params_def truthy_def Let_def empty_state_def u_def)
  have noyear: "cache empty_state (cache_key (u ''The Matrix'') None) = None"
    by (simp add: empty_state_def)
  have ans: "service_matrix (length (sent (empty_state\<lparr>sent := [search_params (u ''k'') (u ''The Matrix'') (Some (u ''1999''))]\<rparr>)))
      (search_params (u ''k'') (u ''The Matrix'') None) = Results [matrix_movie]"
    by (simp add: service_matrix_def search_params_def truthy_def u_def)
  from tmdb_search_single_fallback[OF miss y first] noyear ans miss first show ?thesis by auto
qed

section \<open>Properties of the playlist builder\<close>

lemma startswith_append: "startswith (p @ s) p"
  by (simp add: startswith_def)

lemma extinf_prefix: "startswith (extinf d l g ov) (u ''#EXTINF:'')"
proof -
  have "extinf d l g ov = u ''#EXTINF:'' @ (u ''-1 '' @ u ''tvg-name='' @ [ord CHR 0x22] @ d
     @ [ord CHR 0x22] @ u '' ''
     @ u ''tvg-logo='' @ [ord CHR 0x22] @ l @ [ord CHR 0x22] @ u '' ''
     @ u ''group-title='' @ [ord CHR 0x22] @ g @ [ord CHR 0x22] @ u '' ''
     @ u ''tvg-plot='' @ [ord CHR 0x22] @ ov @ [ord CHR 0x22] @ u '','' @ d)"
    by (simp add: extinf_def u_def)
  then show ?thesis by (simp only: startswith_append)
qed

lemma build_step_shape:
  assumes "build_step U api key b e = Inr b'"
  shows "\<exists>m. lines b' = lines b @ [m, e_url e, []]
       \<and> startswith m (u ''#EXTINF:'')
       \<and> matched b' + unmatched b' = Suc (matched b + unmatched b)"
proof -
  obtain title year where p: "parse_movie_name U (e_filename e) = (title, year)"
    by (cases "parse_movie_name U (e_filename e)")
  obtain r st where t: "tmdb_search api key (lookup b) title year = (r, st)"
    by (cases "tmdb_search api key (lookup b) title year")
  show ?thesis
  proof (cases r)
    case (Inl err)
    with assms p t show ?thesis by (simp add: build_step_def Let_def)
  next
    case (Inr found)
    show ?thesis
    proof (cases found)
      case None
      let ?m = "extinf (if truthy year then title @ u '' ('' @ the year @ u '')'' else title)
                [] (e_category e @ u '' [Unmatched]'') []"
      from assms p t Inr None
      have bdef: "b' = \<lparr>lines = lines b @ [?m, e_url e, []],
              matched = matched b, unmatched = unmatched b + 1, lookup = st\<rparr>"
        by (simp add: build_step_def Let_def)
      have l: "lines b' = lines b @ [?m, e_url e, []]" by (subst bdef) simp
      have "matched b' = matched b" by (subst bdef) simp
      moreover have "unmatched b' = unmatched b + 1" by (subst bdef) simp
      ultimately have c: "matched b' + unmatched b' = Suc (matched b + unmatched b)"
        by simp
      have s: "startswith ?m (u ''#EXTINF:'')" by (rule extinf_prefix)
      from l s c show ?thesis by (intro exI[of _ ?m] conjI)
    next
      case (Some i)
      let ?d = "if info_year i \<noteq> []
                then fmt (info_title i) @ u '' ('' @ info_year i @ u '')''
                else fmt (info_title i)"
      let ?l = "if info_poster_url i \<noteq> [] then info_poster_url i else info_backdrop_url i"
      let ?m = "extinf ?d ?l (e_category e) (info_overview i)"
      from assms p t Inr Some
      have bdef: "b' = \<lparr>lines = lines b @ [?m, e_url e, []],
              matched = matched b + 1, unmatched = unmatched b, lookup = st\<rparr>"
        by (simp add: build_step_def Let_def)
      have l: "lines b' = lines b @ [?m, e_url e, []]" by (subst bdef) simp
      have "matched b' = matched b + 1" by (subst bdef) simp
      moreover have "unmatched b' = unmatched b" by (subst bdef) simp
      ultimately have c: "matched b' + unmatched b' = Suc (matched b + unmatched b)"
        by simp
      have s: "startswith ?m (u ''#EXTINF:'')" by (rule extinf_prefix)
      from l s c show ?thesis by (intro exI[of _ ?m] conjI)
    qed
  qed
qed

lemma build_loop_shape:
  "build_loop U api key b es = Inr b' \<Longrightarrow>
   \<exists>ms. length ms = length es
     \<and> lines b' = lines b @ concat (map (\<lambda>(m, e). [m, e_url e, []]) (zip ms es))
     \<and> list_all (\<lambda>m. startswith m (u ''#EXTINF:'')) ms
     \<and> matched b' + unmatched b' = matched b + unmatched b + length es"
proof (induction es arbitrary: b)
  case Nil
  then have "b' = b" by simp
  then have "length ([]::ustring list) = length ([]::entry list)
     \<and> lines b' = lines b @ concat (map (\<lambda>(m, e). [m, e_url e, []]) (zip [] []))
     \<and> list_all (\<lambda>m. startswith m (u ''#EXTINF:'')) []
     \<and> matched b' + unmatched b' = matched b + unmatched b + length ([]::entry list)"
    by simp
  then show ?case by (rule exI[of _ "[]"])
next
  case (Cons e es)
  from Cons.prems obtain b1 where b1: "build_step U api key b e = Inr b1"
      and rest: "build_loop U api key b1 es = Inr b'"
    by (cases "build_step U api key b e") simp_all
  from build_step_shape[OF b1] obtain m where m:
    "lines b1 = lines b @ [m, e_url e, []]" "startswith m (u ''#EXTINF:'')"
    "matched b1 + unmatched b1 = Suc (matched b + unmatched b)"
    by (elim exE conjE)
  from Cons.IH[OF rest] obtain ms where ms: "length ms = length es"
    "lines b' = lines b1 @ concat (map (\<lambda>(m, e). [m, e_url e, []]) (zip ms es))"
    "list_all (\<lambda>m. startswith m (u ''#EXTINF:'')) ms"
    "matched b' + unmatched b' = matched b1 + unmatched b1 + length es"
    by (elim exE conjE)
  have "length (m # ms) = length (e # es)
     \<and> lines b' = lines b @ concat (map (\<lambda>(m, e). [m, e_url e, []]) (zip (m # ms) (e # es)))
     \<and> list_all (\<lambda>m. startswith m (u ''#EXTINF:'')) (m # ms)
     \<and> matched b' + unmatched b' = matched b + unmatched b + length (e # es)"
    using m ms by simp
  then show ?case by (rule exI[of _ "m # ms"])
qed

lemma records_concat:
  "length ms = length es \<Longrightarrow>
   records (concat (map (\<lambda>(m, e). [m, e_url e, []]) (zip ms es)))
     = map (\<lambda>(m, e). (m, e_url e, [])) (zip ms es)"
  by (induction ms es rule: list_induct2) simp_all

lemma record_urls:
  "length ms = length es \<Longrightarrow>
   map (\<lambda>r. fst (snd r)) (map (\<lambda>(m, e). (m, e_url e, [])) (zip ms es)) = map e_url es"
  by (induction ms es rule: list_induct2) simp_all

lemma split_char_nonempty: "split_char c s \<noteq> []"
  by (induction s) (auto split: list.splits)

lemma split_char_append: "split_char c (a @ c # b) = split_char c a @ split_char c b"
proof (induction a)
  case Nil
  show ?case by simp
next
  case (Cons x a)
  obtain p ps where p: "split_char c a = p # ps"
    using split_char_nonempty[of c a] by (cases "split_char c a") auto
  with Cons show ?case by simp
qed

lemma split_char_notin: "c \<notin> set s \<Longrightarrow> split_char c s = [s]"
  by (induction s) auto

lemma split_join:
  "split_char c (join [c] (x # xs)) = concat (map (split_char c) (x # xs))"
proof (induction xs arbitrary: x)
  case Nil
  show ?case by simp
next
  case (Cons y ys)
  have "join [c] (x # y # ys) = x @ c # join [c] (y # ys)" by simp
  then have "split_char c (join [c] (x # y # ys))
      = split_char c x @ split_char c (join [c] (y # ys))"
    by (simp only: split_char_append)
  with Cons[of y] show ?case by simp
qed

lemma concat_split_notin:
  "list_all (\<lambda>l. c \<notin> set l) ls \<Longrightarrow> concat (map (split_char c) ls) = ls"
  by (induction ls) (simp_all add: split_char_notin)

lemma header_lines:
  "split_char (ord CHR 0x0A) (u ''#EXTM3U'' @ [ord CHR 0x0A]) = [u ''#EXTM3U'', []]"
  by code_simp

lemma build_m3u_run_shape:
  assumes "build_m3u_run U api key st files = Inr b"
  shows "\<exists>ms. length ms = length files
     \<and> lines b = (u ''#EXTM3U'' @ [ord CHR 0x0A])
           # concat (map (\<lambda>(m, e). [m, e_url e, []]) (zip ms (files_sorted U files)))
     \<and> list_all (\<lambda>m. startswith m (u ''#EXTINF:'')) ms
     \<and> records (tl (lines b))
         = map (\<lambda>(m, e). (m, e_url e, [])) (zip ms (files_sorted U files))
     \<and> length (records (tl (lines b))) = length files
     \<and> mset (files_sorted U files) = mset files
     \<and> matched b + unmatched b = length files
     \<and> build_m3u U api key st files = Inr (join [ord CHR 0x0A] (lines b), lookup b)
     \<and> (list_all (\<lambda>l. ord CHR 0x0A \<notin> set l) (tl (lines b)) \<longrightarrow>
          text_lines (join [ord CHR 0x0A] (lines b)) = u ''#EXTM3U'' # [] # tl (lines b)
          \<and> records (drop 2 (text_lines (join [ord CHR 0x0A] (lines b))))
              = map (\<lambda>(m, e). (m, e_url e, [])) (zip ms (files_sorted U files)))"
proof -
  let ?b0 = "\<lparr>lines = [u ''#EXTM3U'' @ [ord CHR 0x0A]], matched = 0, unmatched = 0, lookup = st\<rparr>"
  let ?es = "files_sorted U files"
  let ?nl = "ord CHR 0x0A"
  have len: "length ?es = length files" by (simp add: files_sorted_def)
  from assms have run: "build_loop U api key ?b0 ?es = Inr b" by (simp add: build_m3u_run_def)
  from build_loop_shape[OF run] obtain ms where ms: "length ms = length ?es"
    "lines b = lines ?b0 @ concat (map (\<lambda>(m, e). [m, e_url e, []]) (zip ms ?es))"
    "list_all (\<lambda>m. startswith m (u ''#EXTINF:'')) ms"
    "matched b + unmatched b = matched ?b0 + unmatched ?b0 + length ?es"
    by (elim exE conjE)
  have l: "lines b
      = (u ''#EXTM3U'' @ [?nl]) # concat (map (\<lambda>(m, e). [m, e_url e, []]) (zip ms ?es))"
    using ms(2) by simp
  have r: "records (tl (lines b)) = map (\<lambda>(m, e). (m, e_url e, [])) (zip ms ?es)"
    unfolding l using records_concat[OF ms(1)] by simp
  have rl: "length (records (tl (lines b))) = length files"
    unfolding r using ms(1) len by simp
  have c: "matched b + unmatched b = length files"
    using ms(4) len by simp
  have p: "mset ?es = mset files" by (simp add: files_sorted_def)
  have t: "build_m3u U api key st files = Inr (join [?nl] (lines b), lookup b)"
    using assms by (simp add: build_m3u_def)
  have x: "list_all (\<lambda>l. ?nl \<notin> set l) (tl (lines b)) \<longrightarrow>
          text_lines (join [?nl] (lines b)) = u ''#EXTM3U'' # [] # tl (lines b)
          \<and> records (drop 2 (text_lines (join [?nl] (lines b))))
              = map (\<lambda>(m, e). (m, e_url e, [])) (zip ms ?es)"
  proof (rule impI)
    assume clean: "list_all (\<lambda>l. ?nl \<notin> set l) (tl (lines b))"
    have "lines b = (u ''#EXTM3U'' @ [?nl]) # tl (lines b)" using l by simp
    then have "text_lines (join [?nl] (lines b))
        = concat (map (split_char ?nl) ((u ''#EXTM3U'' @ [?nl]) # tl (lines b)))"
      unfolding text_lines_def using split_join[of ?nl "u ''#EXTM3U'' @ [?nl]" "tl (lines b)"]
      by simp
    also have "\<dots> = split_char ?nl (u ''#EXTM3U'' @ [?nl]) @ tl (lines b)"
      using concat_split_notin[OF clean] by simp
    also have "\<dots> = u ''#EXTM3U'' # [] # tl (lines b)"
      by (simp only: header_lines append_Cons append_Nil)
    finally have tl: "text_lines (join [?nl] (lines b)) = u ''#EXTM3U'' # [] # tl (lines b)" .
    have "drop 2 (u ''#EXTM3U'' # [] # tl (lines b)) = tl (lines b)" by simp
    with tl r show "text_lines (join [?nl] (lines b)) = u ''#EXTM3U'' # [] # tl (lines b)
          \<and> records (drop 2 (text_lines (join [?nl] (lines b))))
              = map (\<lambda>(m, e). (m, e_url e, [])) (zip ms ?es)" by simp
  qed
  have "length ms = length files" using ms(1) len by simp
  with l ms(3) r rl p c t x show ?thesis by (intro exI[of _ ms] conjI)
qed

text \<open>
  Claim C4 does not hold as stated, for two reasons.  The synopsis returned by the
  service is copied into the metadata line with only its double quotes replaced; when
  it contains a newline, the metadata line takes two lines of the returned text, and
  the text of three entries then reads as four records of three lines, the second line
  of the first one not being the URL of an entry.  And when the synopsis of the first
  result is \<open>null\<close>, \<open>build_m3u\<close> ends with the exception \<open>AttributeError\<close> and emits
  nothing.
\<close>

theorem build_m3u_record_count_differs:
  "\<not> isl (build_m3u tables service_two_lines (u ''k'') empty_state
            [entry_c, entry_matrix, entry_d])
   \<and> length [entry_c, entry_matrix, entry_d] = 3
   \<and> length (text_lines (fst (projr (build_m3u tables service_two_lines (u ''k'') empty_state
        [entry_c, entry_matrix, entry_d])))) = 14
   \<and> length (records (drop 2 (text_lines (fst (projr (build_m3u tables service_two_lines
        (u ''k'') empty_state [entry_c, entry_matrix, entry_d])))))) = 4
   \<and> fst (snd (hd (records (drop 2 (text_lines (fst (projr (build_m3u tables service_two_lines
        (u ''k'') empty_state [entry_c, entry_matrix, entry_d]))))))))
       = u ''He learns the truth.'' @ [ord CHR 0x22] @ u '',The Matrix (1999)''
   \<and> isl (build_m3u tables service_null (u ''k'') empty_state [entry_matrix])
   \<and> projl (build_m3u tables service_null (u ''k'') empty_state [entry_matrix])
       = AttributeError"
  by code_simp

text \<open>
  Claim C4, amended.  Whenever \<open>build_m3u\<close> returns (the loop ends in a state \<open>b\<close>), it
  has appended to the header line exactly one group of three elements per entry (a
  metadata line starting with \<open>#EXTINF:\<close>, the URL of the entry, an empty line),
  whether the lookup matched or not.  The groups follow the sorted entries, which are a
  permutation of the input, so that their number is the number of input entries and no
  entry is dropped or duplicated; the two counters add up to that number, and the text
  returned is these elements joined by newlines.  If moreover no metadata line and no
  URL contains a newline, the lines of the returned text are the header, an empty line
  and these elements, so that the text has exactly one record of three lines per entry.
\<close>

theorem build_m3u_one_record_per_entry:
  assumes "build_m3u_run U api key st files = Inr b"
  shows "\<exists>ms. length ms = length files
     \<and> lines b = (u ''#EXTM3U'' @ [ord CHR 0x0A])
           # concat (map (\<lambda>(m, e). [m, e_url e, []]) (zip ms (files_sorted U files)))
     \<and> list_all (\<lambda>m. startswith m (u ''#EXTINF:'')) ms
     \<and> records (tl (lines b))
         = map (\<lambda>(m, e). (m, e_url e, [])) (zip ms (files_sorted U files))
     \<and> length (records (tl (lines b))) = length files
     \<and> mset (files_sorted U files) = mset files
     \<and> matched b + unmatched b = length files
     \<and> build_m3u U api key st files = Inr (join [ord CHR 0x0A] (lines b), lookup b)
     \<and> (list_all (\<lambda>l. ord CHR 0x0A \<notin> set l) (tl (lines b)) \<longrightarrow>
          text_lines (join [ord CHR 0x0A] (lines b)) = u ''#EXTM3U'' # [] # tl (lines b)
          \<and> records (drop 2 (text_lines (join [ord CHR 0x0A] (lines b))))
              = map (\<lambda>(m, e). (m, e_url e, [])) (zip ms (files_sorted U files))
          \<and> length (records (drop 2 (text_lines (join [ord CHR 0x0A] (lines b)))))
              = length files)"
proof -
  let ?nl = "ord CHR 0x0A"
  from build_m3u_run_shape[OF assms] obtain ms where ms: "length ms = length files"
    "lines b = (u ''#EXTM3U'' @ [?nl])
           # concat (map (\<lambda>(m, e). [m, e_url e, []]) (zip ms (files_sorted U files)))"
    "list_all (\<lambda>m. startswith m (u ''#EXTINF:'')) ms"
    "records (tl (lines b))
         = map (\<lambda>(m, e). (m, e_url e, [])) (zip ms (files_sorted U files))"
    "length (records (tl (lines b))) = length files"
    "mset (files_sorted U files) = mset files"
    "matched b + unmatched b = length files"
    "build_m3u U api key st files = Inr (join [?nl] (lines b), lookup b)"
    and x: "list_all (\<lambda>l. ?nl \<notin> set l) (tl (lines b)) \<longrightarrow>
          text_lines (join [?nl] (lines b)) = u ''#EXTM3U'' # [] # tl (lines b)
          \<and> records (drop 2 (text_lines (join [?nl] (lines b))))
              = map (\<lambda>(m, e). (m, e_url e, [])) (zip ms (files_sorted U files))"
    by (elim exE conjE)
  have y: "list_all (\<lambda>l. ?nl \<notin> set l) (tl (lines b)) \<longrightarrow>
          text_lines (join [?nl] (lines b)) = u ''#EXTM3U'' # [] # tl (lines b)
          \<and> records (drop 2 (text_lines (join [?nl] (lines b))))
              = map (\<lambda>(m, e). (m, e_url e, [])) (zip ms (files_sorted U files))
          \<and> length (records (drop 2 (text_lines (join [?nl] (lines b))))) = length files"
  proof (rule impI)
    assume "list_all (\<lambda>l. ?nl \<notin> set l) (tl (lines b))"
    with x have tr: "text_lines (join [?nl] (lines b)) = u ''#EXTM3U'' # [] # tl (lines b)
          \<and> records (drop 2 (text_lines (join [?nl] (lines b))))
              = map (\<lambda>(m, e). (m, e_url e, [])) (zip ms (files_sorted U files))"
      by (rule mp)
    note t = tr[THEN conjunct1] and r = tr[THEN conjunct2]
    from r ms(4) ms(5)
    have "length (records (drop 2 (text_lines (join [?nl] (lines b))))) = length files"
      by simp
    with t r
    show "text_lines (join [?nl] (lines b)) = u ''#EXTM3U'' # [] # tl (lines b)
          \<and> records (drop 2 (text_lines (join [?nl] (lines b))))
              = map (\<lambda>(m, e). (m, e_url e, [])) (zip ms (files_sorted U files))
          \<and> length (records (drop 2 (text_lines (join [?nl] (lines b))))) = length files"
      by (intro conjI)
  qed
  from ms y show ?thesis by (intro exI[of _ ms] conjI)
qed

theorem build_m3u_one_record_per_entry_witness:
  "build_m3u_run tables service_matrix (u ''k'') empty_state [entry_c, entry_matrix, entry_d]
     = Inr (projr (build_m3u_run tables service_matrix (u ''k'') empty_state
         [entry_c, entry_matrix, entry_d]))
   \<and> list_all (\<lambda>l. ord CHR 0x0A \<notin> set l)
       (tl (lines (projr (build_m3u_run tables service_matrix (u ''k'') empty_state
         [entry_c, entry_matrix, entry_d]))))
   \<and> length (records (drop 2 (text_lines (fst (projr (build_m3u tables service_matrix (u ''k'')
         empty_state [entry_c, entry_matrix, entry_d])))))) = 3
   \<and> map (\<lambda>r. fst (snd r)) (records (drop 2 (text_lines (fst (projr (build_m3u tables
         service_matrix (u ''k'') empty_state [entry_c, entry_matrix, entry_d]))))))
       = [u ''http://h/A/B/C/x.mkv'', u ''http://h/A/B/D/x.mkv'',
          u ''http://h/The.Matrix.1999.mkv'']"
proof -
  let ?files = "[entry_c, entry_matrix, entry_d]"
  let ?run = "build_m3u_run tables service_matrix (u ''k'') empty_state ?files"
  let ?out = "build_m3u tables service_matrix (u ''k'') empty_state ?files"
  have "\<not> isl ?run" by code_simp
  then have p: "?run = Inr (projr ?run)" by simp
  have c: "list_all (\<lambda>l. ord CHR 0x0A \<notin> set l) (tl (lines (projr ?run)))" by code_simp
  have v: "map (\<lambda>r. fst (snd r)) (records (drop 2 (text_lines (fst (projr ?out)))))
       = [u ''http://h/A/B/C/x.mkv'', u ''http://h/A/B/D/x.mkv'',
          u ''http://h/The.Matrix.1999.mkv'']"
    by code_simp
  from build_m3u_one_record_per_entry[OF p] obtain ms where
    o: "?out = Inr (join [ord CHR 0x0A] (lines (projr ?run)), lookup (projr ?run))"
    and x: "list_all (\<lambda>l. ord CHR 0x0A \<notin> set l) (tl (lines (projr ?run))) \<longrightarrow>
          text_lines (join [ord CHR 0x0A] (lines (projr ?run)))
            = u ''#EXTM3U'' # [] # tl (lines (projr ?run))
          \<and> records (drop 2 (text_lines (join [ord CHR 0x0A] (lines (projr ?run)))))
              = map (\<lambda>(m, e). (m, e_url e, [])) (zip ms (files_sorted tables ?files))
          \<and> length (records (drop 2 (text_lines (join [ord CHR 0x0A] (lines (projr ?run))))))
              = length ?files"
    by (elim exE conjE)
  from x c have "length (records (drop 2 (text_lines (join [ord CHR 0x0A] (lines (projr ?run))))))
              = length ?files"
    by (elim impE conjE)
  moreover from o have "fst (projr ?out) = join [ord CHR 0x0A] (lines (projr ?run))"
    by simp
  ultimately have n: "length (records (drop 2 (text_lines (fst (projr ?out))))) = 3"
    by simp
  from p c n v show ?thesis by (intro conjI)
qed

text \<open>
  Claim C7 does not hold as stated: the order of the output is not the same for every
  permutation of the input.  Two entries of the category \<open>A > B\<close> with the file name
  \<open>x.mkv\<close> and different URLs have the same key, and the playlist lists them in the order
  of the input.
\<close>

theorem build_m3u_order_depends_on_input:
  "mset [entry_d, entry_c] = mset [entry_c, entry_d]
   \<and> \<not> isl (build_m3u tables service_down (u ''k'') empty_state [entry_d, entry_c])
   \<and> \<not> isl (build_m3u tables service_down (u ''k'') empty_state [entry_c, entry_d])
   \<and> fst (projr (build_m3u tables service_down (u ''k'') empty_state [entry_d, entry_c]))
     \<noteq> fst (projr (build_m3u tables service_down (u ''k'') empty_state [entry_c, entry_d]))"
proof -
  have "\<not> isl (build_m3u tables service_down (u ''k'') empty_state [entry_d, entry_c])"
    by code_simp
  moreover have "\<not> isl (build_m3u tables service_down (u ''k'') empty_state [entry_c, entry_d])"
    by code_simp
  moreover
  have "fst (projr (build_m3u tables service_down (u ''k'') empty_state [entry_d, entry_c]))
     \<noteq> fst (projr (build_m3u tables service_down (u ''k'') empty_state [entry_c, entry_d]))"
    by code_simp
  ultimately show ?thesis by simp
qed

text \<open>
  Claim C7, amended.  \<open>build_m3u\<close> emits the records in ascending order of the key
  (category lowercased, filename lowercased): whenever it returns, the URLs of the
  groups appended after the header are those of the sorted entries, in that order, and
  they are the URLs of the records of the returned text when no appended line contains
  a newline.  The sort is stable: the entries with one and the same key keep the order
  of the input.  The outcome is the same for every permutation of the input list whose
  entries have pairwise distinct keys (entries with equal keys being equal).
\<close>

theorem build_m3u_sorted_stable:
  "sorted (map (sort_key_of U) (files_sorted U files))
   \<and> (build_m3u_run U api key st files = Inr b \<longrightarrow>
        map (\<lambda>r. fst (snd r)) (records (tl (lines b))) = map e_url (files_sorted U files)
        \<and> (list_all (\<lambda>l. ord CHR 0x0A \<notin> set l) (tl (lines b)) \<longrightarrow>
             map (\<lambda>r. fst (snd r))
               (records (drop 2 (text_lines (join [ord CHR 0x0A] (lines b)))))
             = map e_url (files_sorted U files)))
   \<and> filter (\<lambda>e. sort_key_of U e = k) (files_sorted U files)
       = filter (\<lambda>e. sort_key_of U e = k) files
   \<and> (mset files' = mset files \<and> inj_on (sort_key_of U) (set files)
        \<longrightarrow> build_m3u U api key st files' = build_m3u U api key st files)"
proof -
  let ?nl = "ord CHR 0x0A"
  have s: "sorted (map (sort_key_of U) (files_sorted U files))"
    by (simp add: files_sorted_def)
  have r: "build_m3u_run U api key st files = Inr b \<longrightarrow>
        map (\<lambda>r. fst (snd r)) (records (tl (lines b))) = map e_url (files_sorted U files)
        \<and> (list_all (\<lambda>l. ?nl \<notin> set l) (tl (lines b)) \<longrightarrow>
             map (\<lambda>r. fst (snd r)) (records (drop 2 (text_lines (join [?nl] (lines b)))))
             = map e_url (files_sorted U files))"
  proof (rule impI)
    assume run: "build_m3u_run U api key st files = Inr b"
    from build_m3u_run_shape[OF run] obtain ms where ms: "length ms = length files"
      "records (tl (lines b))
         = map (\<lambda>(m, e). (m, e_url e, [])) (zip ms (files_sorted U files))"
      and x: "list_all (\<lambda>l. ?nl \<notin> set l) (tl (lines b)) \<longrightarrow>
          text_lines (join [?nl] (lines b)) = u ''#EXTM3U'' # [] # tl (lines b)
          \<and> records (drop 2 (text_lines (join [?nl] (lines b))))
              = map (\<lambda>(m, e). (m, e_url e, [])) (zip ms (files_sorted U files))"
      by (elim exE conjE)
    have "length ms = length (files_sorted U files)" using ms(1) by (simp add: files_sorted_def)
    then have w: "map (\<lambda>r. fst (snd r))
          (map (\<lambda>(m, e). (m, e_url e, [])) (zip ms (files_sorted U files)))
        = map e_url (files_sorted U files)"
      by (rule record_urls)
    with ms(2) have a: "map (\<lambda>r. fst (snd r)) (records (tl (lines b)))
        = map e_url (files_sorted U files)" by simp
    have c: "list_all (\<lambda>l. ?nl \<notin> set l) (tl (lines b)) \<longrightarrow>
             map (\<lambda>r. fst (snd r)) (records (drop 2 (text_lines (join [?nl] (lines b)))))
             = map e_url (files_sorted U files)"
    proof (rule impI)
      assume "list_all (\<lambda>l. ?nl \<notin> set l) (tl (lines b))"
      with x have "text_lines (join [?nl] (lines b)) = u ''#EXTM3U'' # [] # tl (lines b)
          \<and> records (drop 2 (text_lines (join [?nl] (lines b))))
              = map (\<lambda>(m, e). (m, e_url e, [])) (zip ms (files_sorted U files))"
        by (rule mp)
      then have "records (drop 2 (text_lines (join [?nl] (lines b))))
              = map (\<lambda>(m, e). (m, e_url e, [])) (zip ms (files_sorted U files))"
        by (rule conjunct2)
      with w show "map (\<lambda>r. fst (snd r)) (records (drop 2 (text_lines (join [?nl] (lines b)))))
             = map e_url (files_sorted U files)" by simp
    qed
    from a c show "map (\<lambda>r. fst (snd r)) (records (tl (lines b)))
          = map e_url (files_sorted U files)
        \<and> (list_all (\<lambda>l. ?nl \<notin> set l) (tl (lines b)) \<longrightarrow>
             map (\<lambda>r. fst (snd r)) (records (drop 2 (text_lines (join [?nl] (lines b)))))
             = map e_url (files_sorted U files))"
      by (rule conjI)
  qed
  have f: "filter (\<lambda>e. sort_key_of U e = k) (files_sorted U files)
      = filter (\<lambda>e. sort_key_of U e = k) files"
    unfolding files_sorted_def by (rule sort_key_stable)
  have p: "mset files' = mset files \<and> inj_on (sort_key_of U) (set files)
        \<longrightarrow> build_m3u U api key st files' = build_m3u U api key st files"
  proof (rule impI)
    assume h: "mset files' = mset files \<and> inj_on (sort_key_of U) (set files)"
    then have "inj_on (sort_key_of U) (set files')" by (metis set_mset_mset)
    then have "files_sorted U files' = files_sorted U files"
      unfolding files_sorted_def using h by (intro sort_key_eq_sort_key) simp
    then show "build_m3u U api key st files' = build_m3u U api key st files"
      by (simp add: build_m3u_def build_m3u_run_def)
  qed
  from s r f p show ?thesis by (intro conjI)
qed

theorem build_m3u_sorted_stable_witness:
  "mset [entry_matrix, entry_c] = mset [entry_c, entry_matrix]
   \<and> inj_on (sort_key_of tables) (set [entry_c, entry_matrix])
   \<and> build_m3u_run tables service_matrix (u ''k'') empty_state [entry_c, entry_matrix]
       = Inr (projr (build_m3u_run tables service_matrix (u ''k'') empty_state
           [entry_c, entry_matrix]))
   \<and> list_all (\<lambda>l. ord CHR 0x0A \<notin> set l)
       (tl (lines (projr (build_m3u_run tables service_matrix (u ''k'') empty_state
         [entry_c, entry_matrix]))))
   \<and> build_m3u tables service_matrix (u ''k'') empty_state [entry_matrix, entry_c]
     = build_m3u tables service_matrix (u ''k'') empty_state [entry_c, entry_matrix]
   \<and> map (\<lambda>r. fst (snd r)) (records (drop 2 (text_lines (join [ord CHR 0x0A]
       (lines (projr (build_m3u_run tables service_matrix (u ''k'') empty_state
          [entry_c, entry_matrix])))))))
     = map e_url (files_sorted tables [entry_c, entry_matrix])
   \<and> map e_url (files_sorted tables [entry_matrix, entry_c])
     = [u ''http://h/A/B/C/x.mkv'', u ''http://h/The.Matrix.1999.mkv'']"
proof -
  let ?files = "[entry_c, entry_matrix]"
  let ?run = "build_m3u_run tables service_matrix (u ''k'') empty_state ?files"
  have m: "mset [entry_matrix, entry_c] = mset ?files" by simp
  have "sort_key_of tables entry_c \<noteq> sort_key_of tables entry_matrix" by code_simp
  then have i: "inj_on (sort_key_of tables) (set ?files)" by auto
  have "\<not> isl ?run" by code_simp
  then have p: "?run = Inr (projr ?run)" by simp
  have c: "list_all (\<lambda>l. ord CHR 0x0A \<notin> set l) (tl (lines (projr ?run)))" by code_simp
  have v: "map e_url (files_sorted tables [entry_matrix, entry_c])
     = [u ''http://h/A/B/C/x.mkv'', u ''http://h/The.Matrix.1999.mkv'']"
    by code_simp
  note t = build_m3u_sorted_stable[where U = tables and files = ?files
      and api = service_matrix and key = "u ''k''" and st = empty_state
      and b = "projr ?run" and k = "sort_key_of tables entry_c"
      and files' = "[entry_matrix, entry_c]"]
  note d = t[THEN conjunct2, THEN conjunct2, THEN conjunct2]
  have e: "build_m3u tables service_matrix (u ''k'') empty_state [entry_matrix, entry_c]
     = build_m3u tables service_matrix (u ''k'') empty_state ?files"
    by (rule mp[OF d]) (intro conjI m i)
  note g = t[THEN conjunct2, THEN conjunct1, THEN mp, OF p, THEN conjunct2, THEN mp, OF c]
  from m i p c e g v show ?thesis by (intro conjI)
qed

section \<open>Properties of the crawler\<close>

lemma crawl_links_Cons_cases:
  obtains
    (skip) "crawl_links rec U w base url depth parts (link # links) results
              = crawl_links rec U w base url depth parts links results"
  | (stop) "crawl_links rec U w base url depth parts (link # links) results = None"
  | (folder) v name found where "folder_link U w base url link"
      "v = urljoin w url (strip U link)"
      "name = unquote w (rstrip_chars (\<lambda>c. c = ord CHR ''/'') (strip U link))"
      "rec v (depth + 1)
         (if depth < MAX_CATEGORY_DEPTH then parts @ [name] else parts) = Some found"
      "crawl_links rec U w base url depth parts (link # links) results
         = crawl_links rec U w base url depth parts links (results @ found)"
  | (video) v f where "startswith v base" "lower U (path_suffix f) \<in> VIDEO_EXTENSIONS"
      "crawl_links rec U w base url depth parts (link # links) results
         = crawl_links rec U w base url depth parts links
             (results @ [\<lparr>e_url = v, e_filename = f, e_category = category_path parts\<rparr>])"
proof -
  let ?href = "strip U link"
  let ?u = "urljoin w url ?href"
  let ?name = "unquote w (rstrip_chars (\<lambda>c. c = ord CHR ''/'') ?href)"
  let ?new = "if depth < MAX_CATEGORY_DEPTH then parts @ [?name] else parts"
  let ?nav = "?href \<in> {u ''../'', u ''..'', u ''/'', u ''''} \<or> startswith ?href (u ''?'')
     \<or> startswith ?href (u ''#'') \<or> (startswith ?href (u ''http'') \<and> \<not> startswith ?href base)"
  show thesis
  proof (cases ?nav)
    case True
    then have "crawl_links rec U w base url depth parts (link # links) results
              = crawl_links rec U w base url depth parts links results"
      by (auto simp: Let_def)
    then show thesis by (rule skip)
  next
    case nav: False
    show thesis
    proof (cases "startswith ?u base")
      case False
      with nav have "crawl_links rec U w base url depth parts (link # links) results
              = crawl_links rec U w base url depth parts links results"
        by (auto simp: Let_def)
      then show thesis by (rule skip)
    next
      case inside: True
      show thesis
      proof (cases "endswith ?href (u ''/'')")
        case slash: True
        show thesis
        proof (cases "?name \<in> SKIP_FOLDERS")
          case True
          with nav inside slash
          have "crawl_links rec U w base url depth parts (link # links) results
              = crawl_links rec U w base url depth parts links results"
            by (auto simp: Let_def)
          then show thesis by (rule skip)
        next
          case keep: False
          have fl: "folder_link U w base url link"
            using nav inside slash keep by (auto simp: folder_link_def Let_def)
          show thesis
          proof (cases "rec ?u (depth + 1) ?new")
            case None
            with nav inside slash keep
            have "crawl_links rec U w base url depth parts (link # links) results = None"
              by (auto simp: Let_def)
            then show thesis by (rule stop)
          next
            case (Some found)
            with nav inside slash keep
            have "crawl_links rec U w base url depth parts (link # links) results
              = crawl_links rec U w base url depth parts links (results @ found)"
              by (auto simp: Let_def)
            with fl Some show thesis by (intro folder[of ?u ?name found]) simp_all
          qed
        qed
      next
        case noslash: False
        show thesis
        proof (cases "lower U (path_suffix ?name) \<in> VIDEO_EXTENSIONS")
          case False
          with nav inside noslash
          have "crawl_links rec U w base url depth parts (link # links) results
              = crawl_links rec U w base url depth parts links results"
            by (auto simp: Let_def)
          then show thesis by (rule skip)
        next
          case True
          with nav inside noslash
          have "crawl_links rec U w base url depth parts (link # links) results
              = crawl_links rec U w base url depth parts links
                 (results @ [\<lparr>e_url = ?u, e_filename = ?name, e_category = category_path parts\<rparr>])"
            by (auto simp: Let_def category_path_def)
          with inside True show thesis by (intro video[of ?u ?name])
        qed
      qed
    qed
  qed
qed

lemma crawl_links_inv:
  assumes rec: "\<And>v d ps rs. rec v d ps = Some rs \<Longrightarrow> Pre d ps \<Longrightarrow> \<forall>e\<in>set rs. Post d ps e"
    and pre: "Pre depth parts"
    and step_pre: "\<And>name. name \<notin> SKIP_FOLDERS \<Longrightarrow>
        Pre (depth + 1) (if depth < MAX_CATEGORY_DEPTH then parts @ [name] else parts)"
    and lift: "\<And>name e. name \<notin> SKIP_FOLDERS \<Longrightarrow>
        Post (depth + 1) (if depth < MAX_CATEGORY_DEPTH then parts @ [name] else parts) e \<Longrightarrow>
        Post depth parts e"
    and leaf: "\<And>v f. startswith v base \<Longrightarrow> lower U (path_suffix f) \<in> VIDEO_EXTENSIONS \<Longrightarrow>
        Post depth parts \<lparr>e_url = v, e_filename = f, e_category = category_path parts\<rparr>"
    and acc: "\<forall>e\<in>set results. Post depth parts e"
    and run: "crawl_links rec U w base url depth parts links results = Some out"
  shows "\<forall>e\<in>set out. Post depth parts e"
  using acc run
proof (induction links arbitrary: results)
  case Nil
  then show ?case by simp
next
  case (Cons link links)
  show ?case
  proof (cases rule: crawl_links_Cons_cases[of rec U w base url depth parts link links results])
    case skip
    with Cons.prems(2) have "crawl_links rec U w base url depth parts links results = Some out"
      by simp
    with Cons.IH[OF Cons.prems(1)] show ?thesis .
  next
    case stop
    with Cons.prems(2) show ?thesis by simp
  next
    case (folder v name found)
    from folder(1,3) have nm: "name \<notin> SKIP_FOLDERS" by (simp add: folder_link_def Let_def)
    from rec[OF folder(4) step_pre[OF nm]]
    have "\<forall>e\<in>set found. Post depth parts e" using lift[OF nm] by auto
    with Cons.prems(1) have a: "\<forall>e\<in>set (results @ found). Post depth parts e" by auto
    from folder(5) Cons.prems(2)
    have "crawl_links rec U w base url depth parts links (results @ found) = Some out" by simp
    with Cons.IH[OF a] show ?thesis .
  next
    case (video v f)
    let ?e = "\<lparr>e_url = v, e_filename = f, e_category = category_path parts\<rparr>"
    from video(1,2) have "Post depth parts ?e" by (rule leaf)
    with Cons.prems(1) have a: "\<forall>e\<in>set (results @ [?e]). Post depth parts e" by auto
    from video(3) Cons.prems(2)
    have "crawl_links rec U w base url depth parts links (results @ [?e]) = Some out" by simp
    with Cons.IH[OF a] show ?thesis .
  qed
qed

lemma crawl_inv:
  assumes step_pre: "\<And>d ps name. Pre d ps \<Longrightarrow> name \<notin> SKIP_FOLDERS \<Longrightarrow>
        Pre (d + 1) (if d < MAX_CATEGORY_DEPTH then ps @ [name] else ps)"
    and lift: "\<And>d ps name e. Pre d ps \<Longrightarrow> name \<notin> SKIP_FOLDERS \<Longrightarrow>
        Post (d + 1) (if d < MAX_CATEGORY_DEPTH then ps @ [name] else ps) e \<Longrightarrow> Post d ps e"
    and leaf: "\<And>d ps v f. Pre d ps \<Longrightarrow> startswith v base \<Longrightarrow>
        lower U (path_suffix f) \<in> VIDEO_EXTENSIONS \<Longrightarrow>
        Post d ps \<lparr>e_url = v, e_filename = f, e_category = category_path ps\<rparr>"
  shows "Pre depth parts \<Longrightarrow> crawl fuel U w base url depth parts = Some out \<Longrightarrow>
         \<forall>e\<in>set out. Post depth parts e"
proof (induction fuel arbitrary: url depth parts out)
  case 0
  then show ?case by simp
next
  case (Suc fuel)
  show ?case
  proof (cases "fetch w url")
    case None
    with Suc.prems(2) show ?thesis by simp
  next
    case (Some links)
    with Suc.prems(2)
    have run: "crawl_links (crawl fuel U w base) U w base url depth parts links [] = Some out"
      by simp
    show ?thesis
    proof (rule crawl_links_inv[where Pre = Pre and Post = Post, OF _ Suc.prems(1) _ _ _ _ run])
      show "\<And>v d ps rs. crawl fuel U w base v d ps = Some rs \<Longrightarrow> Pre d ps \<Longrightarrow>
          \<forall>e\<in>set rs. Post d ps e"
        using Suc.IH by blast
      show "\<And>name. name \<notin> SKIP_FOLDERS \<Longrightarrow>
          Pre (depth + 1) (if depth < MAX_CATEGORY_DEPTH then parts @ [name] else parts)"
        using step_pre[OF Suc.prems(1)] .
      show "\<And>name e. name \<notin> SKIP_FOLDERS \<Longrightarrow>
          Post (depth + 1) (if depth < MAX_CATEGORY_DEPTH then parts @ [name] else parts) e \<Longrightarrow>
          Post depth parts e"
        using lift[OF Suc.prems(1)] .
      show "\<And>v f. startswith v base \<Longrightarrow> lower U (path_suffix f) \<in> VIDEO_EXTENSIONS \<Longrightarrow>
          Post depth parts \<lparr>e_url = v, e_filename = f, e_category = category_path parts\<rparr>"
        using leaf[OF Suc.prems(1)] .
      show "\<forall>e\<in>set []. Post depth parts e" by simp
    qed
  qed
qed

lemma join_nonempty: "ps \<noteq> [] \<Longrightarrow> [] \<notin> set ps \<Longrightarrow> join sep ps \<noteq> []"
  by (induction sep ps rule: join.induct) auto

lemma category_path_nonempty: "[] \<notin> set ps \<Longrightarrow> category_path ps \<noteq> []"
  by (simp add: category_path_def join_nonempty u_def)

text \<open>
  Claim C10.  Every entry returned by \<open>crawl\<close> has a URL that starts with the base URL,
  a file name whose lowercased suffix is one of the video extensions, and a non-empty
  category.  The category parts handed to \<open>crawl\<close> are the folder names accumulated on
  the way, none of them empty (the program starts with no part at all).
\<close>

theorem crawl_entry_invariant:
  assumes "[] \<notin> set parts" and "crawl fuel U w base url depth parts = Some out"
  shows "\<forall>e\<in>set out. startswith (e_url e) base
           \<and> lower U (path_suffix (e_filename e)) \<in> VIDEO_EXTENSIONS
           \<and> e_category e \<noteq> []"
proof (rule crawl_inv[where Pre = "\<lambda>d ps. [] \<notin> set ps"
      and Post = "\<lambda>d ps e. startswith (e_url e) base
           \<and> lower U (path_suffix (e_filename e)) \<in> VIDEO_EXTENSIONS \<and> e_category e \<noteq> []",
      OF _ _ _ assms])
  show "\<And>d ps name. [] \<notin> set ps \<Longrightarrow> name \<notin> SKIP_FOLDERS \<Longrightarrow>
      [] \<notin> set (if d < MAX_CATEGORY_DEPTH then ps @ [name] else ps)"
    by (auto simp: SKIP_FOLDERS_def u_def)
  show "\<And>d ps v f. [] \<notin> set ps \<Longrightarrow> startswith v base \<Longrightarrow>
      lower U (path_suffix f) \<in> VIDEO_EXTENSIONS \<Longrightarrow>
      startswith (e_url \<lparr>e_url = v, e_filename = f, e_category = category_path ps\<rparr>) base
      \<and> lower U (path_suffix (e_filename \<lparr>e_url = v, e_filename = f, e_category = category_path ps\<rparr>))
          \<in> VIDEO_EXTENSIONS
      \<and> e_category \<lparr>e_url = v, e_filename = f, e_category = category_path ps\<rparr> \<noteq> []"
    by (simp add: category_path_nonempty)
qed

theorem crawl_entry_invariant_witness:
  "[] \<notin> set ([] :: ustring list)
   \<and> crawl 5 tables site (u ''http://h/'') (u ''http://h/'') 0 []
       = Some [\<lparr>e_url = u ''http://h/Action/SciFi/Deep/The.Matrix.1999.mkv'',
                 e_filename = u ''The.Matrix.1999.mkv'', e_category = u ''Action > SciFi''\<rparr>,
               \<lparr>e_url = u ''http://h/Action/a.MP4'', e_filename = u ''a.MP4'',
                 e_category = u ''Action''\<rparr>,
               \<lparr>e_url = u ''http://h/top.mkv'', e_filename = u ''top.mkv'',
                 e_category = u ''Movies''\<rparr>]
   \<and> lower tables (path_suffix (u ''a.MP4'')) \<in> VIDEO_EXTENSIONS
   \<and> startswith (u ''http://h/Action/a.MP4'') (u ''http://h/'')"
proof -
  have n: "[] \<notin> set ([] :: ustring list)" by simp
  have c: "crawl 5 tables site (u ''http://h/'') (u ''http://h/'') 0 []
       = Some [\<lparr>e_url = u ''http://h/Action/SciFi/Deep/The.Matrix.1999.mkv'',
                 e_filename = u ''The.Matrix.1999.mkv'', e_category = u ''Action > SciFi''\<rparr>,
               \<lparr>e_url = u ''http://h/Action/a.MP4'', e_filename = u ''a.MP4'',
                 e_category = u ''Action''\<rparr>,
               \<lparr>e_url = u ''http://h/top.mkv'', e_filename = u ''top.mkv'',
                 e_category = u ''Movies''\<rparr>]"
    by code_simp
  from crawl_entry_invariant[OF n c]
  have "lower tables (path_suffix (u ''a.MP4'')) \<in> VIDEO_EXTENSIONS
     \<and> startswith (u ''http://h/Action/a.MP4'') (u ''http://h/'')"
    by simp
  with n c show ?thesis by (intro conjI) simp_all
qed

lemma entry_at_step:
  "entry_at (depth + 1) (if depth < MAX_CATEGORY_DEPTH then parts @ [name] else parts) (v, f, path)
     = entry_at depth parts (v, f, name # path)"
proof (cases "depth < MAX_CATEGORY_DEPTH")
  case True
  then obtain k where k: "MAX_CATEGORY_DEPTH - depth = Suc k"
    by (cases "MAX_CATEGORY_DEPTH - depth") simp_all
  then have "MAX_CATEGORY_DEPTH - (depth + 1) = k" by simp
  with k True show ?thesis by (simp add: entry_at_def)
next
  case False
  then show ?thesis by (simp add: entry_at_def)
qed

lemma entry_at_below:
  "map (entry_at (depth + 1)
         (if depth < MAX_CATEGORY_DEPTH then parts @ [name] else parts)) found
     = map (entry_at depth parts) (map (\<lambda>(v, f, path). (v, f, name # path)) found)"
proof (induction found)
  case Nil
  show ?case by simp
next
  case (Cons l found)
  obtain v f path where l: "l = (v, f, path)" by (cases l)
  have "entry_at (depth + 1) (if depth < MAX_CATEGORY_DEPTH then parts @ [name] else parts)
          (v, f, path)
      = entry_at depth parts (v, f, name # path)"
    by (rule entry_at_step)
  with Cons l show ?case by simp
qed

lemma entry_at_video:
  "entry_at depth parts (v, f, [])
     = \<lparr>e_url = v, e_filename = f, e_category = category_path parts\<rparr>"
  by (simp add: entry_at_def)

lemma crawl_links_walk:
  assumes rec: "\<And>v ps. rec v (depth + 1) ps
      = map_option (map (entry_at (depth + 1) ps)) (wrec v)"
  shows "crawl_links rec U w base url depth parts links (map (entry_at depth parts) res)
       = map_option (map (entry_at depth parts)) (walk_links wrec U w base url links res)"
proof (induction links arbitrary: res)
  case Nil
  show ?case by simp
next
  case (Cons link links)
  let ?E = "entry_at depth parts"
  let ?href = "strip U link"
  let ?v = "urljoin w url ?href"
  let ?name = "unquote w (rstrip_chars (\<lambda>c. c = ord CHR ''/'') ?href)"
  let ?new = "if depth < MAX_CATEGORY_DEPTH then parts @ [?name] else parts"
  let ?nav = "?href \<in> {u ''../'', u ''..'', u ''/'', u ''''} \<or> startswith ?href (u ''?'')
     \<or> startswith ?href (u ''#'')
     \<or> (startswith ?href (u ''http'') \<and> \<not> startswith ?href base)"
  have skip: ?case
    if c: "crawl_links rec U w base url depth parts (link # links) (map ?E res)
          = crawl_links rec U w base url depth parts links (map ?E res)"
      and k: "walk_links wrec U w base url (link # links) res
          = walk_links wrec U w base url links res"
    using c k Cons.IH[of res] by simp
  show ?case
  proof (cases ?nav)
    case True
    then have "crawl_links rec U w base url depth parts (link # links) (map ?E res)
          = crawl_links rec U w base url depth parts links (map ?E res)"
      by (auto simp: Let_def)
    moreover from True have "walk_links wrec U w base url (link # links) res
          = walk_links wrec U w base url links res"
      by (auto simp: Let_def)
    ultimately show ?thesis by (rule skip)
  next
    case nav: False
    show ?thesis
    proof (cases "startswith ?v base")
      case False
      with nav have "crawl_links rec U w base url depth parts (link # links) (map ?E res)
          = crawl_links rec U w base url depth parts links (map ?E res)"
        by (auto simp: Let_def)
      moreover from nav False have "walk_links wrec U w base url (link # links) res
          = walk_links wrec U w base url links res"
        by (auto simp: Let_def)
      ultimately show ?thesis by (rule skip)
    next
      case inside: True
      show ?thesis
      proof (cases "endswith ?href (u ''/'')")
        case slash: True
        show ?thesis
        proof (cases "?name \<in> SKIP_FOLDERS")
          case True
          with nav inside slash
          have "crawl_links rec U w base url depth parts (link # links) (map ?E res)
              = crawl_links rec U w base url depth parts links (map ?E res)"
            by (auto simp: Let_def)
          moreover from nav inside slash True
          have "walk_links wrec U w base url (link # links) res
              = walk_links wrec U w base url links res"
            by (auto simp: Let_def)
          ultimately show ?thesis by (rule skip)
        next
          case keep: False
          have r: "rec ?v (depth + 1) ?new
              = map_option (map (entry_at (depth + 1) ?new)) (wrec ?v)"
            by (rule rec)
          show ?thesis
          proof (cases "wrec ?v")
            case None
            with r have "rec ?v (depth + 1) ?new = None" by simp
            with nav inside slash keep
            have "crawl_links rec U w base url depth parts (link # links) (map ?E res) = None"
              by (auto simp: Let_def)
            moreover from nav inside slash keep None
            have "walk_links wrec U w base url (link # links) res = None"
              by (auto simp: Let_def)
            ultimately show ?thesis by simp
          next
            case (Some found)
            let ?below = "map (\<lambda>(v, f, path). (v, f, ?name # path)) found"
            from r Some have "rec ?v (depth + 1) ?new
                = Some (map (entry_at (depth + 1) ?new) found)"
              by simp
            also have "map (entry_at (depth + 1) ?new) found = map ?E ?below"
              by (rule entry_at_below)
            finally have rv: "rec ?v (depth + 1) ?new = Some (map ?E ?below)" .
            with nav inside slash keep
            have "crawl_links rec U w base url depth parts (link # links) (map ?E res)
              = crawl_links rec U w base url depth parts links (map ?E res @ map ?E ?below)"
              by (auto simp: Let_def)
            then have c: "crawl_links rec U w base url depth parts (link # links) (map ?E res)
              = crawl_links rec U w base url depth parts links (map ?E (res @ ?below))"
              by simp
            from nav inside slash keep Some
            have k: "walk_links wrec U w base url (link # links) res
              = walk_links wrec U w base url links (res @ ?below)"
              by (auto simp: Let_def)
            from c k Cons.IH[of "res @ ?below"] show ?thesis by simp
          qed
        qed
      next
        case noslash: False
        show ?thesis
        proof (cases "lower U (path_suffix ?name) \<in> VIDEO_EXTENSIONS")
          case False
          with nav inside noslash
          have "crawl_links rec U w base url depth parts (link # links) (map ?E res)
              = crawl_links rec U w base url depth parts links (map ?E res)"
            by (auto simp: Let_def)
          moreover from nav inside noslash False
          have "walk_links wrec U w base url (link # links) res
              = walk_links wrec U w base url links res"
            by (auto simp: Let_def)
          ultimately show ?thesis by (rule skip)
        next
          case True
          with nav inside noslash
          have "crawl_links rec U w base url depth parts (link # links) (map ?E res)
              = crawl_links rec U w base url depth parts links
                 (map ?E res @ [\<lparr>e_url = ?v, e_filename = ?name,
                    e_category = category_path parts\<rparr>])"
            by (auto simp: Let_def category_path_def)
          then have c: "crawl_links rec U w base url depth parts (link # links) (map ?E res)
              = crawl_links rec U w base url depth parts links
                 (map ?E (res @ [(?v, ?name, [])]))"
            by (simp add: entry_at_video)
          from nav inside noslash True
          have k: "walk_links wrec U w base url (link # links) res
              = walk_links wrec U w base url links (res @ [(?v, ?name, [])])"
            by (auto simp: Let_def)
          from c k Cons.IH[of "res @ [(?v, ?name, [])]"] show ?thesis by simp
        qed
      qed
    qed
  qed
qed

lemma crawl_walk:
  "crawl fuel U w base url depth parts
     = map_option (map (entry_at depth parts)) (walk fuel U w base url)"
proof (induction fuel arbitrary: url depth parts)
  case 0
  show ?case by simp
next
  case (Suc fuel)
  show ?case
  proof (cases "fetch w url")
    case None
    then show ?thesis by simp
  next
    case (Some links)
    have "crawl_links (crawl fuel U w base) U w base url depth parts links
            (map (entry_at depth parts) [])
        = map_option (map (entry_at depth parts))
            (walk_links (walk fuel U w base) U w base url links [])"
      by (rule crawl_links_walk) (rule Suc.IH)
    with Some show ?thesis by simp
  qed
qed

text \<open>
  Claim C5.  \<open>crawl\<close> emits exactly the videos that the traversal \<open>walk\<close> finds, in
  the same order, and the category of each is made of the folder names given to the
  call followed by the first \<open>MAX_CATEGORY_DEPTH - depth\<close> names of the folders
  entered on the way to the video: a folder name is added to the category exactly when
  the folder is met at a depth below \<open>MAX_CATEGORY_DEPTH\<close>, and the folders met deeper
  are entered without changing the category.  In particular the category of an entry
  returned by \<open>crawl\<close> from depth 0 with no name is made of the first
  \<open>MAX_CATEGORY_DEPTH\<close> folder names on the way to the video, at most
  \<open>MAX_CATEGORY_DEPTH\<close> of them.
\<close>

theorem crawl_category_depth:
  "crawl fuel U w base url depth parts
     = map_option (map (\<lambda>(v, f, path).
         \<lparr>e_url = v, e_filename = f,
          e_category = category_path (parts @ take (MAX_CATEGORY_DEPTH - depth) path)\<rparr>))
       (walk fuel U w base url)
   \<and> crawl fuel U w base url 0 []
     = map_option (map (\<lambda>(v, f, path).
         \<lparr>e_url = v, e_filename = f,
          e_category = category_path (take MAX_CATEGORY_DEPTH path)\<rparr>))
       (walk fuel U w base url)
   \<and> length (take MAX_CATEGORY_DEPTH path) \<le> MAX_CATEGORY_DEPTH"
proof -
  have e: "entry_at d ps = (\<lambda>(v, f, path).
         \<lparr>e_url = v, e_filename = f,
          e_category = category_path (ps @ take (MAX_CATEGORY_DEPTH - d) path)\<rparr>)" for d ps
    by (rule ext) (simp add: entry_at_def)
  have a: "crawl fuel U w base url depth parts
     = map_option (map (\<lambda>(v, f, path).
         \<lparr>e_url = v, e_filename = f,
          e_category = category_path (parts @ take (MAX_CATEGORY_DEPTH - depth) path)\<rparr>))
       (walk fuel U w base url)"
    using crawl_walk[of fuel U w base url depth parts] by (simp only: e)
  have "crawl fuel U w base url 0 []
     = map_option (map (\<lambda>(v, f, path).
         \<lparr>e_url = v, e_filename = f,
          e_category = category_path ([] @ take (MAX_CATEGORY_DEPTH - 0) path)\<rparr>))
       (walk fuel U w base url)"
    using crawl_walk[of fuel U w base url 0 "[]"] by (simp only: e)
  then have b: "crawl fuel U w base url 0 []
     = map_option (map (\<lambda>(v, f, path).
         \<lparr>e_url = v, e_filename = f,
          e_category = category_path (take MAX_CATEGORY_DEPTH path)\<rparr>))
       (walk fuel U w base url)"
    by simp
  have c: "length (take MAX_CATEGORY_DEPTH path) \<le> MAX_CATEGORY_DEPTH" by simp
  from a b c show ?thesis by (intro conjI)
qed

theorem crawl_category_depth_witness:
  "walk 5 tables site (u ''http://h/'') (u ''http://h/'')
     = Some [(u ''http://h/Action/SciFi/Deep/The.Matrix.1999.mkv'', u ''The.Matrix.1999.mkv'',
               [u ''Action'', u ''SciFi'', u ''Deep'']),
             (u ''http://h/Action/a.MP4'', u ''a.MP4'', [u ''Action'']),
             (u ''http://h/top.mkv'', u ''top.mkv'', [])]
   \<and> crawl 5 tables site (u ''http://h/'') (u ''http://h/'') 0 []
     = Some [\<lparr>e_url = u ''http://h/Action/SciFi/Deep/The.Matrix.1999.mkv'',
               e_filename = u ''The.Matrix.1999.mkv'',
               e_category = category_path [u ''Action'', u ''SciFi'']\<rparr>,
             \<lparr>e_url = u ''http://h/Action/a.MP4'', e_filename = u ''a.MP4'',
               e_category = category_path [u ''Action'']\<rparr>,
             \<lparr>e_url = u ''http://h/top.mkv'', e_filename = u ''top.mkv'',
               e_category = category_path []\<rparr>]
   \<and> category_path [u ''Action'', u ''SciFi''] = u ''Action > SciFi''
   \<and> category_path [] = u ''Movies''"
proof -
  have k: "walk 5 tables site (u ''http://h/'') (u ''http://h/'')
     = Some [(u ''http://h/Action/SciFi/Deep/The.Matrix.1999.mkv'', u ''The.Matrix.1999.mkv'',
               [u ''Action'', u ''SciFi'', u ''Deep'']),
             (u ''http://h/Action/a.MP4'', u ''a.MP4'', [u ''Action'']),
             (u ''http://h/top.mkv'', u ''top.mkv'', [])]"
    by code_simp
  note t = crawl_category_depth[of 5 tables site "u ''http://h/''" "u ''http://h/''" 0 "[]" "[]",
      THEN conjunct2, THEN conjunct1]
  have c: "crawl 5 tables site (u ''http://h/'') (u ''http://h/'') 0 []
     = Some [\<lparr>e_url = u ''http://h/Action/SciFi/Deep/The.Matrix.1999.mkv'',
               e_filename = u ''The.Matrix.1999.mkv'',
               e_category = category_path [u ''Action'', u ''SciFi'']\<rparr>,
             \<lparr>e_url = u ''http://h/Action/a.MP4'', e_filename = u ''a.MP4'',
               e_category = category_path [u ''Action'']\<rparr>,
             \<lparr>e_url = u ''http://h/top.mkv'', e_filename = u ''top.mkv'',
               e_category = category_path []\<rparr>]"
    unfolding t k by (simp add: MAX_CATEGORY_DEPTH_def)
  have p: "category_path [u ''Action'', u ''SciFi''] = u ''Action > SciFi''" by code_simp
  have m: "category_path [] = u ''Movies''" by code_simp
  from k c p m show ?thesis by (intro conjI)
qed

section \<open>Properties of the main program\<close>

text \<open>
  Claim C8, evaluated.  On a site that cannot be reached the crawl finds no video, the
  run ends with exit status 1 and the playlist file is not created.  On the example
  site the crawl finds three videos; with a service whose results carry a synopsis the
  playlist is written and the status is 0.  With a service whose first result has a
  \<open>null\<close> synopsis, the same three videos are found, but the run ends in
  \<open>AttributeError\<close>: the exit status is 1 and the playlist file is not created.
\<close>

theorem main_null_overview_no_playlist:
  "main 5 tables site_environ site_down service_matrix
     = Some \<lparr>exit_status = 1, written = None\<rparr>
   \<and> map_option length
         (crawl 5 tables site (BASE_URL site_environ) (BASE_URL site_environ) 0 []) = Some 3
   \<and> map_option exit_status (main 5 tables site_environ site service_matrix) = Some 0
   \<and> map_option written (main 5 tables site_environ site service_matrix)
       = Some (Some (fst (projr (build_m3u tables service_matrix (u ''k'') empty_state
           (the (crawl 5 tables site (u ''http://h/'') (u ''http://h/'') 0 []))))))
   \<and> isl (build_m3u tables service_null (u ''k'') empty_state
           (the (crawl 5 tables site (u ''http://h/'') (u ''http://h/'') 0 [])))
   \<and> main 5 tables site_environ site service_null
       = Some \<lparr>exit_status = 1, written = None\<rparr>"
  by code_simp

end
